theory Spec2Isabelle
  imports Main
begin

section \<open>Data model (chat.ts, lines 4-27)\<close>

text \<open>
  The \<^verbatim>\<open>type\<close> tag of a \<^verbatim>\<open>ChatMessage\<close>, the connection state of the
  service and the subtype of a call-signalling payload, as the unions of string literals
  the interface declares.
\<close>

datatype msg_type = Message | ConnectionStatus | UserConnected | Typing | VoiceCall | IceCandidate

datatype conn_state = Connecting | Connected | Disconnected

datatype call_type = Request | Accepted | Rejected | Ended | Busy

text \<open>
  \<^verbatim>\<open>RTCSessionDescriptionInit\<close> is the DOM dictionary \<^verbatim>\<open>{ sdp?: string; type: RTCSdpType }\<close>.
  An optional field is an \<open>option\<close>: \<open>None\<close> is JavaScript's \<^verbatim>\<open>undefined\<close>.
\<close>

record RTCSessionDescriptionInit =
  sdp :: "string option"
  sdpType :: string

record CallData =
  callType :: call_type
  offer :: "RTCSessionDescriptionInit option"
  answer :: "RTCSessionDescriptionInit option"

record ChatMessage =
  type :: msg_type
  content :: "string option"
  senderId :: "string option"
  receiverId :: "string option"
  timestamp :: "string option"
  connectionStatus :: "conn_state option"
  userId :: "string option"
  isTyping :: "bool option"
  callData :: "CallData option"

text \<open>An object literal that sets only \<^verbatim>\<open>type\<close>; the other fields are absent.\<close>

definition blank :: "msg_type \<Rightarrow> ChatMessage" where
  "blank ty = \<lparr>type = ty, content = None, senderId = None, receiverId = None,
     timestamp = None, connectionStatus = None, userId = None, isTyping = None,
     callData = None\<rparr>"

text \<open>The string a \<^verbatim>\<open>type\<close> tag is at run time; it is also the wire channel's name.\<close>

fun type_str :: "msg_type \<Rightarrow> string" where
  "type_str Message = ''message''"
| "type_str ConnectionStatus = ''connection_status''"
| "type_str UserConnected = ''user_connected''"
| "type_str Typing = ''typing''"
| "type_str VoiceCall = ''voice_call''"
| "type_str IceCandidate = ''ice-candidate''"

section \<open>The host: platform functions, transport, timers, promises\<close>

text \<open>
  Two functions of the JavaScript platform are used by the service and are not part of
  the repository: \<^verbatim>\<open>JSON.stringify\<close> on a call-data object and
  \<^verbatim>\<open>new Date().toISOString()\<close>, here a rendering of the clock (milliseconds).
  Every operation takes them as the parameter \<open>P\<close>, and every theorem holds for any
  choice of them.
\<close>

record platform =
  stringify :: "CallData \<Rightarrow> string"
  toISOString :: "nat \<Rightarrow> string"

text \<open>
  The transport (socket.io) is an event emitter: a list of (channel, listener) pairs in
  registration order. The listeners are the closures the service registers; a transient
  \<^verbatim>\<open>handleOffer\<close> closure is identified by the promise it resolves and carries the
  \<^verbatim>\<open>senderId\<close> it captured.
\<close>

datatype channel = ChConnect | ChDisconnect | ChConnectError | ChData msg_type

datatype listener =
    OnConnect | OnDisconnect | OnConnectError | HandleMessage | OnTyping
  | HandleOffer nat string

record Socket =
  connected :: bool
  handlers :: "(channel \<times> listener) list"

datatype error = Error string

datatype completion = Normal | Throw error

datatype promise = Pending | Resolved "RTCSessionDescriptionInit option"

datatype timer_action = TypingAutoClear string | OfferTimeout nat string

record Timer =
  handle :: nat
  due :: nat
  action :: timer_action

text \<open>
  What the service does to the outside: a subscriber callback invoked with a message,
  a message handed to \<^verbatim>\<open>socket.emit\<close>, a socket closed, and (recorded by the
  host's timer loop) a timer callback run.
\<close>

datatype effect =
    Notify nat ChatMessage
  | Emit msg_type ChatMessage
  | SocketClosed
  | TimerFired nat timer_action

section \<open>The service state (chat.ts, lines 20-31)\<close>

text \<open>
  The first six fields are the fields of the class (\<^verbatim>\<open>maxReconnectAttempts\<close> is
  never assigned and only configures the transport). Subscribers are callback
  identities; a JavaScript \<^verbatim>\<open>Set\<close> iterates in insertion order, so the set of
  callbacks is a list without repetition. The remaining fields are the host's state the
  code reads and writes: the signed-in user's uid (\<^verbatim>\<open>auth.currentUser?.uid\<close>), the
  clock, the pending timers, the promises handed out by \<^verbatim>\<open>getLastOffer\<close>, the
  number of \<^verbatim>\<open>initializeConnection\<close> calls suspended at their \<^verbatim>\<open>await\<close>, the
  exception the transport's \<^verbatim>\<open>emit\<close> currently raises (if any), and the log of
  effects.
\<close>

record ChatService =
  socket :: "Socket option"
  messageCallbacks :: "nat list"
  connectionState :: conn_state
  reconnectAttempts :: nat
  messageSet :: "string set"
  typingTimeoutId :: "nat option"
  currentUser :: "string option"
  now :: nat
  timers :: "Timer list"
  nextTimer :: nat
  promises :: "promise list"
  awaitingToken :: nat
  emitFault :: "error option"
  effects :: "effect list"

definition maxReconnectAttempts :: nat where
  "maxReconnectAttempts = 5"

subsection \<open>Host operations\<close>

text \<open>\<^verbatim>\<open>this.socket?.connected\<close> as a condition: false when there is no socket.\<close>

definition socket_connected :: "ChatService \<Rightarrow> bool" where
  "socket_connected s = (case socket s of None \<Rightarrow> False | Some sk \<Rightarrow> connected sk)"

definition socket_on :: "channel \<Rightarrow> listener \<Rightarrow> ChatService \<Rightarrow> ChatService" where
  "socket_on ch l s =
     (case socket s of
        None \<Rightarrow> s
      | Some sk \<Rightarrow> s\<lparr>socket := Some (sk\<lparr>handlers := handlers sk @ [(ch, l)]\<rparr>)\<rparr>)"

text \<open>\<^verbatim>\<open>this.socket?.off(ch, l)\<close>: nothing without a socket or when \<open>l\<close> is not registered.\<close>

definition socket_off :: "channel \<Rightarrow> listener \<Rightarrow> ChatService \<Rightarrow> ChatService" where
  "socket_off ch l s =
     (case socket s of
        None \<Rightarrow> s
      | Some sk \<Rightarrow> s\<lparr>socket := Some (sk\<lparr>handlers := remove1 (ch, l) (handlers sk)\<rparr>)\<rparr>)"

text \<open>
  \<^verbatim>\<open>this.socket?.emit(ch, m)\<close>: the message is handed to the transport, unless the
  transport raises.
\<close>

definition socket_emit :: "msg_type \<Rightarrow> ChatMessage \<Rightarrow> ChatService \<Rightarrow> completion \<times> ChatService" where
  "socket_emit ch m s =
     (case socket s of
        None \<Rightarrow> (Normal, s)
      | Some sk \<Rightarrow>
          (case emitFault s of
             Some e \<Rightarrow> (Throw e, s)
           | None \<Rightarrow> (Normal, s\<lparr>effects := effects s @ [Emit ch m]\<rparr>)))"

definition setTimeout :: "nat \<Rightarrow> timer_action \<Rightarrow> ChatService \<Rightarrow> nat \<times> ChatService" where
  "setTimeout delay a s =
     (nextTimer s,
      s\<lparr>timers := timers s @ [\<lparr>handle = nextTimer s, due = now s + delay, action = a\<rparr>],
        nextTimer := Suc (nextTimer s)\<rparr>)"

text \<open>Cancelling a timer that has fired or was cancelled before changes nothing.\<close>

definition clearTimeout :: "nat \<Rightarrow> ChatService \<Rightarrow> ChatService" where
  "clearTimeout h s = s\<lparr>timers := filter (\<lambda>t. handle t \<noteq> h) (timers s)\<rparr>"

text \<open>A promise settles once: \<^verbatim>\<open>resolve\<close> on a settled promise does nothing.\<close>

definition resolve :: "nat \<Rightarrow> RTCSessionDescriptionInit option \<Rightarrow> ChatService \<Rightarrow> ChatService" where
  "resolve p v s =
     (if p < length (promises s) \<and> promises s ! p = Pending
      then s\<lparr>promises := (promises s)[p := Resolved v]\<rparr>
      else s)"

section \<open>The service (chat.ts, lines 33-230)\<close>

text \<open>
  \<^verbatim>\<open>generateMessageId\<close>, line 34: a template string. An absent \<^verbatim>\<open>senderId\<close> or
  \<^verbatim>\<open>receiverId\<close> prints as \<^verbatim>\<open>undefined\<close>; an absent or empty timestamp as the
  empty string; absent call data as \<^verbatim>\<open>JSON.stringify('')\<close>, two double quotes.
\<close>

definition template :: "string option \<Rightarrow> string" where
  "template x = (case x of None \<Rightarrow> ''undefined'' | Some v \<Rightarrow> v)"

definition generateMessageId :: "platform \<Rightarrow> ChatMessage \<Rightarrow> string" where
  "generateMessageId P message =
     type_str (type message) @ ''-'' @ template (senderId message) @ ''-'' @
     template (receiverId message) @ ''-'' @
     (case timestamp message of None \<Rightarrow> '''' | Some t \<Rightarrow> t) @ ''-'' @
     (case callData message of None \<Rightarrow> [CHR 0x22, CHR 0x22] | Some c \<Rightarrow> stringify P c)"

text \<open>
  \<^verbatim>\<open>this.messageCallbacks.forEach(callback => callback(message))\<close>. A callback is
  application code; it is taken to observe the message and return: it does not raise and
  does not call the service while it runs.
\<close>

definition fanout :: "ChatMessage \<Rightarrow> ChatService \<Rightarrow> ChatService" where
  "fanout message s = s\<lparr>effects := effects s @ map (\<lambda>c. Notify c message) (messageCallbacks s)\<rparr>"

definition statusMessage :: "platform \<Rightarrow> ChatService \<Rightarrow> ChatMessage" where
  "statusMessage P s =
     (blank ConnectionStatus)\<lparr>connectionStatus := Some (connectionState s),
        timestamp := Some (toISOString P (now s))\<rparr>"

definition notifyConnectionStatus :: "platform \<Rightarrow> ChatService \<Rightarrow> ChatService" where
  "notifyConnectionStatus P s = fanout (statusMessage P s) s"

subsection \<open>Inbound handlers (lines 78-129)\<close>

text \<open>The \<^verbatim>\<open>connect\<close> handler, lines 78-92.\<close>

definition onConnect :: "platform \<Rightarrow> ChatService \<Rightarrow> completion \<times> ChatService" where
  "onConnect P s =
     (let s1 = s\<lparr>connectionState := Connected\<rparr>;
          s2 = s1\<lparr>reconnectAttempts := 0\<rparr>;
          s3 = notifyConnectionStatus P s2;
          s4 = s3\<lparr>messageSet := {}\<rparr>
      in case currentUser s4 of
           None \<Rightarrow> (Normal, s4)
         | Some uid \<Rightarrow>
             socket_emit UserConnected
               ((blank UserConnected)\<lparr>senderId := Some uid,
                  timestamp := Some (toISOString P (now s4))\<rparr>) s4)"

text \<open>The \<^verbatim>\<open>disconnect\<close> and \<^verbatim>\<open>connect_error\<close> handlers, lines 94-104.\<close>

definition onDisconnect :: "platform \<Rightarrow> ChatService \<Rightarrow> ChatService" where
  "onDisconnect P s = notifyConnectionStatus P (s\<lparr>connectionState := Disconnected\<rparr>)"

definition onConnectError :: "platform \<Rightarrow> ChatService \<Rightarrow> ChatService" where
  "onConnectError P s = notifyConnectionStatus P (s\<lparr>connectionState := Disconnected\<rparr>)"

text \<open>
  \<^verbatim>\<open>handleMessage\<close>, lines 106-117. \<^verbatim>\<open>message.senderId === auth.currentUser?.uid\<close>
  compares two possibly absent strings, and two absent ones are equal.
\<close>

definition handleMessage :: "platform \<Rightarrow> ChatMessage \<Rightarrow> ChatService \<Rightarrow> ChatService" where
  "handleMessage P message s =
     (if senderId message = currentUser s \<and> type message \<noteq> Typing then s
      else
        let messageId = generateMessageId P message in
        if messageId \<notin> messageSet s
        then fanout message (s\<lparr>messageSet := insert messageId (messageSet s)\<rparr>)
        else s)"

text \<open>The \<^verbatim>\<open>typing\<close> handler, lines 125-129.\<close>

definition onTyping :: "ChatMessage \<Rightarrow> ChatService \<Rightarrow> ChatService" where
  "onTyping message s = (if receiverId message = currentUser s then fanout message s else s)"

text \<open>
  The transient \<^verbatim>\<open>handleOffer\<close> closure of \<^verbatim>\<open>getLastOffer\<close>, lines 200-205, for the
  promise \<open>p\<close> and the captured \<open>sid\<close>. An offer is an object, so
  \<^verbatim>\<open>message.callData?.offer\<close> is true exactly when both are present.
\<close>

definition handleOffer :: "nat \<Rightarrow> string \<Rightarrow> ChatMessage \<Rightarrow> ChatService \<Rightarrow> ChatService" where
  "handleOffer p sid message s =
     (case callData message of
        None \<Rightarrow> s
      | Some c \<Rightarrow>
          (case offer c of
             None \<Rightarrow> s
           | Some off \<Rightarrow>
               if type message = VoiceCall \<and> senderId message = Some sid
               then resolve p (Some off) (socket_off (ChData VoiceCall) (HandleOffer p sid) s)
               else s))"

subsection \<open>Events from the transport\<close>

datatype transport_event = EvConnect | EvDisconnect | EvConnectError | EvData msg_type ChatMessage

fun channel_of :: "transport_event \<Rightarrow> channel" where
  "channel_of EvConnect = ChConnect"
| "channel_of EvDisconnect = ChDisconnect"
| "channel_of EvConnectError = ChConnectError"
| "channel_of (EvData ch m) = ChData ch"

definition listeners_on :: "channel \<Rightarrow> Socket \<Rightarrow> listener list" where
  "listeners_on ch sk = map snd (filter (\<lambda>cl. fst cl = ch) (handlers sk))"

text \<open>
  Running one listener on an event. A data listener reads fields of its argument, which
  a lifecycle event does not carry: that would be a \<^verbatim>\<open>TypeError\<close> (the service never
  registers a data listener on a lifecycle channel).
\<close>

fun run_listener :: "platform \<Rightarrow> listener \<Rightarrow> transport_event \<Rightarrow> ChatService \<Rightarrow> completion \<times> ChatService" where
  "run_listener P OnConnect ev s = onConnect P s"
| "run_listener P OnDisconnect ev s = (Normal, onDisconnect P s)"
| "run_listener P OnConnectError ev s = (Normal, onConnectError P s)"
| "run_listener P HandleMessage (EvData ch m) s = (Normal, handleMessage P m s)"
| "run_listener P OnTyping (EvData ch m) s = (Normal, onTyping m s)"
| "run_listener P (HandleOffer p sid) (EvData ch m) s = (Normal, handleOffer p sid m s)"
| "run_listener P l ev s = (Throw (Error ''TypeError''), s)"

text \<open>
  The emitter calls the listeners registered for the channel when the event arrives, in
  registration order; an exception of a listener ends the dispatch.
\<close>

fun run_listeners :: "platform \<Rightarrow> listener list \<Rightarrow> transport_event \<Rightarrow> ChatService \<Rightarrow> completion \<times> ChatService" where
  "run_listeners P [] ev s = (Normal, s)"
| "run_listeners P (l # ls) ev s =
     (case run_listener P l ev s of
        (Normal, s') \<Rightarrow> run_listeners P ls ev s'
      | (Throw e, s') \<Rightarrow> (Throw e, s'))"

text \<open>
  An event of the current socket. The socket's \<^verbatim>\<open>connected\<close> flag follows its
  lifecycle events before the listeners run.
\<close>

definition receive :: "platform \<Rightarrow> transport_event \<Rightarrow> ChatService \<Rightarrow> completion \<times> ChatService" where
  "receive P ev s =
     (case socket s of
        None \<Rightarrow> (Normal, s)
      | Some sk \<Rightarrow>
          let sk' = (case ev of
                       EvConnect \<Rightarrow> sk\<lparr>connected := True\<rparr>
                     | EvDisconnect \<Rightarrow> sk\<lparr>connected := False\<rparr>
                     | _ \<Rightarrow> sk)
          in run_listeners P (listeners_on (channel_of ev) sk') ev (s\<lparr>socket := Some sk'\<rparr>))"

subsection \<open>\<^verbatim>\<open>initializeConnection\<close> (lines 46-137)\<close>

text \<open>
  The function is \<^verbatim>\<open>async\<close>: a call runs up to the \<^verbatim>\<open>await\<close> of the identity
  token (line 69) and returns a promise; the rest runs when the token is there. The
  first part either settles the promise at once (the two early returns) or suspends.
\<close>

datatype init_outcome = Settled completion | Suspended

definition initializeConnection :: "platform \<Rightarrow> ChatService \<Rightarrow> init_outcome \<times> ChatService" where
  "initializeConnection P s =
     (if currentUser s = None then (Settled Normal, s)
      else if socket_connected s then (Settled Normal, s)
      else
        let s1 = s\<lparr>connectionState := Connecting\<rparr>;
            s2 = notifyConnectionStatus P s1;
            s3 = (case socket s2 of
                    None \<Rightarrow> s2
                  | Some sk \<Rightarrow> s2\<lparr>effects := effects s2 @ [SocketClosed], socket := None\<rparr>)
        in (Suspended, s3\<lparr>awaitingToken := Suc (awaitingToken s3)\<rparr>))"

text \<open>The listeners registered on a new socket, lines 78-129, in order.\<close>

definition standard_handlers :: "(channel \<times> listener) list" where
  "standard_handlers =
     [(ChConnect, OnConnect), (ChDisconnect, OnDisconnect), (ChConnectError, OnConnectError),
      (ChData Message, HandleMessage), (ChData VoiceCall, HandleMessage),
      (ChData IceCandidate, HandleMessage), (ChData Typing, OnTyping)]"

text \<open>The \<^verbatim>\<open>catch\<close> block, lines 131-136: the error is thrown again.\<close>

definition initializeConnection_catch :: "platform \<Rightarrow> error \<Rightarrow> ChatService \<Rightarrow> completion \<times> ChatService" where
  "initializeConnection_catch P e s =
     (let s1 = s\<lparr>connectionState := Disconnected\<rparr>;
          s2 = notifyConnectionStatus P s1
      in (Throw e, s2))"

text \<open>
  The continuation after the \<^verbatim>\<open>await\<close>. \<open>failure\<close> is the exception of the token
  fetch or of opening the transport, if there is one. \<^verbatim>\<open>auth.currentUser.uid\<close> is
  read after the suspension, when the user may have signed out: a \<^verbatim>\<open>TypeError\<close>
  inside the \<^verbatim>\<open>try\<close>. Without a suspended call there is nothing to continue.
\<close>

definition initializeConnection_resume :: "platform \<Rightarrow> error option \<Rightarrow> ChatService \<Rightarrow> completion \<times> ChatService" where
  "initializeConnection_resume P failure s =
     (if awaitingToken s = 0 then (Normal, s)
      else
        let s0 = s\<lparr>awaitingToken := awaitingToken s - 1\<rparr> in
        case failure of
          Some e \<Rightarrow> initializeConnection_catch P e s0
        | None \<Rightarrow>
            (case currentUser s0 of
               None \<Rightarrow> initializeConnection_catch P (Error ''TypeError'') s0
             | Some uid \<Rightarrow>
                 (Normal, s0\<lparr>socket := Some \<lparr>connected = False, handlers = standard_handlers\<rparr>\<rparr>)))"

subsection \<open>The public methods (lines 139-230)\<close>

text \<open>
  \<^verbatim>\<open>onMessage\<close>, lines 139-144, and the function it returns. Adding a callback that
  is in the set already changes nothing.
\<close>

definition onMessage :: "nat \<Rightarrow> ChatService \<Rightarrow> ChatService" where
  "onMessage callback s =
     (if callback \<in> set (messageCallbacks s) then s
      else s\<lparr>messageCallbacks := messageCallbacks s @ [callback]\<rparr>)"

definition unsubscribe :: "nat \<Rightarrow> ChatService \<Rightarrow> ChatService" where
  "unsubscribe callback s = s\<lparr>messageCallbacks := removeAll callback (messageCallbacks s)\<rparr>"

text \<open>
  \<^verbatim>\<open>sendMessage\<close>, lines 146-167. The call of \<^verbatim>\<open>initializeConnection\<close> is not
  awaited: its promise is dropped, whatever it settles to. The key is added before
  \<^verbatim>\<open>emit\<close> runs, and stays when \<^verbatim>\<open>emit\<close> raises.
\<close>

definition sendMessage :: "platform \<Rightarrow> ChatMessage \<Rightarrow> ChatService \<Rightarrow> completion \<times> ChatService" where
  "sendMessage P message s =
     (if \<not> socket_connected s then (Normal, snd (initializeConnection P s))
      else
        let messageId = generateMessageId P message in
        if messageId \<notin> messageSet s \<or> type message = Typing
        then
          let s1 = (if type message \<noteq> Typing
                    then s\<lparr>messageSet := insert messageId (messageSet s)\<rparr> else s)
          in case socket_emit (type message) message s1 of
               (Normal, s2) \<Rightarrow> (Normal, s2)
             | (Throw e, s2) \<Rightarrow>
                 if connectionState s2 \<noteq> Connected
                 then (Normal, snd (initializeConnection P s2))
                 else (Normal, s2)
        else (Normal, s))"

text \<open>
  \<^verbatim>\<open>sendTypingIndicator\<close>, lines 169-189. A timer handle is an object
  (\<^verbatim>\<open>NodeJS.Timeout\<close>), so \<^verbatim>\<open>if (this.typingTimeoutId)\<close> asks whether it is set.
\<close>

definition sendTypingIndicator :: "platform \<Rightarrow> string \<Rightarrow> bool \<Rightarrow> ChatService \<Rightarrow> completion \<times> ChatService" where
  "sendTypingIndicator P receiver typing s =
     (let s1 = (case typingTimeoutId s of
                  None \<Rightarrow> s
                | Some h \<Rightarrow> (clearTimeout h s)\<lparr>typingTimeoutId := None\<rparr>);
          message = (blank Typing)\<lparr>senderId := currentUser s1, receiverId := Some receiver,
                       isTyping := Some typing, timestamp := Some (toISOString P (now s1))\<rparr>
      in case sendMessage P message s1 of
           (Throw e, s2) \<Rightarrow> (Throw e, s2)
         | (Normal, s2) \<Rightarrow>
             if typing
             then (let (h, s3) = setTimeout 3000 (TypingAutoClear receiver) s2
                   in (Normal, s3\<lparr>typingTimeoutId := Some h\<rparr>))
             else (Normal, s2))"

text \<open>
  \<^verbatim>\<open>getLastOffer\<close>, lines 192-215: the promise it returns (its index) and the state.
\<close>

definition getLastOffer :: "string \<Rightarrow> ChatService \<Rightarrow> nat \<times> ChatService" where
  "getLastOffer sid s =
     (let p = length (promises s);
          s0 = s\<lparr>promises := promises s @ [Pending]\<rparr>
      in if \<not> socket_connected s0 then (p, resolve p None s0)
         else
           let s1 = socket_on (ChData VoiceCall) (HandleOffer p sid) s0;
               (h, s2) = setTimeout 5000 (OfferTimeout p sid) s1
           in (p, s2))"

text \<open>
  \<^verbatim>\<open>close\<close>, lines 217-230. A closed socket is dropped with its listeners and
  delivers nothing more. The subscribers are removed before the last
  \<^verbatim>\<open>notifyConnectionStatus\<close>, which therefore reaches nobody.
\<close>

definition close :: "platform \<Rightarrow> ChatService \<Rightarrow> ChatService" where
  "close P s =
     (let s1 = (case typingTimeoutId s of
                  None \<Rightarrow> s
                | Some h \<Rightarrow> (clearTimeout h s)\<lparr>typingTimeoutId := None\<rparr>);
          s2 = (case socket s1 of
                  None \<Rightarrow> s1
                | Some sk \<Rightarrow> s1\<lparr>effects := effects s1 @ [SocketClosed], socket := None\<rparr>);
          s3 = s2\<lparr>messageCallbacks := []\<rparr>;
          s4 = s3\<lparr>messageSet := {}\<rparr>;
          s5 = s4\<lparr>connectionState := Disconnected\<rparr>
      in notifyConnectionStatus P s5)"

subsection \<open>The host's timer loop\<close>

text \<open>
  Timers fire in the order of their due times, and in the order they were set when the
  due times are equal. \<open>next_due t s\<close> is the timer to fire next when the clock moves
  to \<open>t\<close>.
\<close>

fun earliest :: "Timer \<Rightarrow> Timer list \<Rightarrow> Timer" where
  "earliest x [] = x"
| "earliest x (y # ys) = earliest (if due y < due x then y else x) ys"

definition next_due :: "nat \<Rightarrow> ChatService \<Rightarrow> Timer option" where
  "next_due t s =
     (case filter (\<lambda>x. due x \<le> t) (timers s) of
        [] \<Rightarrow> None
      | x # xs \<Rightarrow> Some (earliest x xs))"

text \<open>
  The two timer callbacks: line 186 (\<^verbatim>\<open>this.sendTypingIndicator(receiverId, false)\<close>;
  nothing catches what it raises, the host only reports it) and lines 211-212.
\<close>

definition run_timer :: "platform \<Rightarrow> timer_action \<Rightarrow> ChatService \<Rightarrow> ChatService" where
  "run_timer P a s =
     (case a of
        TypingAutoClear receiver \<Rightarrow> snd (sendTypingIndicator P receiver False s)
      | OfferTimeout p sid \<Rightarrow>
          resolve p None (socket_off (ChData VoiceCall) (HandleOffer p sid) s))"

text \<open>A fired timer is no longer pending when its callback runs.\<close>

definition fire :: "platform \<Rightarrow> Timer \<Rightarrow> ChatService \<Rightarrow> ChatService" where
  "fire P x s =
     run_timer P (action x)
       (s\<lparr>timers := filter (\<lambda>y. handle y \<noteq> handle x) (timers s),
          now := max (now s) (due x),
          effects := effects s @ [TimerFired (handle x) (action x)]\<rparr>)"

text \<open>
  The clock moves to \<open>t\<close>: every timer due by then fires, earliest first. No callback
  sets a new timer, so the number of pending timers decreases with each firing.
\<close>

function advance :: "platform \<Rightarrow> nat \<Rightarrow> ChatService \<Rightarrow> ChatService" where
  "advance P t s =
     (case next_due t s of
        None \<Rightarrow> s\<lparr>now := max (now s) t\<rparr>
      | Some x \<Rightarrow> advance P t (fire P x s))"
  by pat_completeness auto
termination
proof (relation "measure (\<lambda>(P, t, s). length (timers s))")
  show "wf (measure (\<lambda>(P, t, s). length (timers s)))" by simp
next
  fix P :: platform and t :: nat and s :: ChatService and x :: Timer
  assume nd: "next_due t s = Some x"
  have mem: "earliest y ys \<in> set (y # ys)" for y :: Timer and ys
    by (induction ys arbitrary: y) auto
  from nd obtain y ys where f: "filter (\<lambda>x. due x \<le> t) (timers s) = y # ys"
    and x: "x = earliest y ys"
    by (auto simp: next_due_def split: list.splits)
  have "x \<in> set (filter (\<lambda>x. due x \<le> t) (timers s))"
    unfolding f x by (rule mem)
  then have xin: "x \<in> set (timers s)" by simp
  have less: "length (filter (\<lambda>y. handle y \<noteq> handle x) (timers s)) < length (timers s)"
    using xin by (simp add: length_filter_less)
  have init: "timers (snd (initializeConnection P u)) = timers u" for u
    by (simp add: initializeConnection_def notifyConnectionStatus_def fanout_def Let_def
        split: option.splits)
  have emit: "socket_emit c m u = (r, u') \<Longrightarrow> timers u' = timers u" for c m u r u'
    by (auto simp: socket_emit_def split: option.splits)
  have send: "sendMessage P m u = (r, u') \<Longrightarrow> timers u' = timers u" for m u r u'
    by (auto simp: sendMessage_def Let_def init
        split: prod.splits completion.splits if_splits dest: emit)
  have tclear: "length (timers (snd (sendTypingIndicator P r False u))) \<le> length (timers u)" for r u
    by (auto simp: sendTypingIndicator_def Let_def clearTimeout_def
        split: prod.splits completion.splits option.splits dest!: send
        intro: le_trans [OF length_filter_le])
  have off: "timers (resolve p None (socket_off c l u)) = timers u" for p c l u
    by (simp add: resolve_def socket_off_def split: option.splits)
  have "length (timers (run_timer P a u)) \<le> length (timers u)" for a u
    using tclear off by (cases a) (simp_all add: run_timer_def)
  then have "length (timers (fire P x s)) \<le> length (filter (\<lambda>y. handle y \<noteq> handle x) (timers s))"
    unfolding fire_def by (rule le_trans) simp
  with less show "((P, t, fire P x s), (P, t, s)) \<in> measure (\<lambda>(P, t, s). length (timers s))"
    by simp
qed


subsection \<open>Runs of the service\<close>

text \<open>
  Everything that can happen to a service object: a call of one of its public methods,
  the token fetch of a suspended \<^verbatim>\<open>initializeConnection\<close> settling, an event of
  the current socket, time passing, the user signing in or out, and the transport
  starting or ceasing to reject \<^verbatim>\<open>emit\<close>.
\<close>

datatype stimulus =
    Subscribe nat
  | Unsubscribe nat
  | Send ChatMessage
  | SendTyping string bool
  | AwaitOffer string
  | Close
  | TokenSettled "error option"
  | Inbound transport_event
  | Elapse nat
  | SignIn "string option"
  | Fault "error option"

fun step :: "platform \<Rightarrow> stimulus \<Rightarrow> ChatService \<Rightarrow> ChatService" where
  "step P (Subscribe c) s = onMessage c s"
| "step P (Unsubscribe c) s = unsubscribe c s"
| "step P (Send m) s = snd (sendMessage P m s)"
| "step P (SendTyping r b) s = snd (sendTypingIndicator P r b s)"
| "step P (AwaitOffer sid) s = snd (getLastOffer sid s)"
| "step P Close s = close P s"
| "step P (TokenSettled failure) s = snd (initializeConnection_resume P failure s)"
| "step P (Inbound ev) s = snd (receive P ev s)"
| "step P (Elapse t) s = advance P t s"
| "step P (SignIn u) s = s\<lparr>currentUser := u\<rparr>"
| "step P (Fault e) s = s\<lparr>emitFault := e\<rparr>"

definition run :: "platform \<Rightarrow> stimulus list \<Rightarrow> ChatService \<Rightarrow> ChatService" where
  "run P sts s = foldl (\<lambda>s st. step P st s) s sts"

text \<open>
  The field initialisers (lines 21-27) at clock \<open>t\<close> with \<open>u\<close> signed in, and the
  constructor (lines 29-31), which calls \<^verbatim>\<open>initializeConnection\<close>.
\<close>

definition fresh :: "nat \<Rightarrow> string option \<Rightarrow> ChatService" where
  "fresh t u =
     \<lparr>socket = None, messageCallbacks = [], connectionState = Disconnected,
      reconnectAttempts = 0, messageSet = {}, typingTimeoutId = None, currentUser = u,
      now = t, timers = [], nextTimer = 1, promises = [], awaitingToken = 0,
      emitFault = None, effects = []\<rparr>"

definition new_ChatService :: "platform \<Rightarrow> nat \<Rightarrow> string option \<Rightarrow> ChatService" where
  "new_ChatService P t u = snd (initializeConnection P (fresh t u))"

section \<open>Notions the properties are stated with\<close>

text \<open>The messages a subscriber's callback was invoked with, in order.\<close>

fun notified :: "nat \<Rightarrow> effect list \<Rightarrow> ChatMessage list" where
  "notified c [] = []"
| "notified c (Notify c' m # es) = (if c' = c then m # notified c es else notified c es)"
| "notified c (e # es) = notified c es"

text \<open>The messages handed to the transport, with their channels, in order.\<close>

fun emitted :: "effect list \<Rightarrow> (msg_type \<times> ChatMessage) list" where
  "emitted [] = []"
| "emitted (Emit ch m # es) = (ch, m) # emitted es"
| "emitted (e # es) = emitted es"

text \<open>The receivers of the automatic stop-typing calls made by fired timers, in order.\<close>

fun auto_cleared :: "effect list \<Rightarrow> string list" where
  "auto_cleared [] = []"
| "auto_cleared (TimerFired h (TypingAutoClear r) # es) = r # auto_cleared es"
| "auto_cleared (e # es) = auto_cleared es"

text \<open>
  Two events that agree on the five fields the dedup key is made of (they may differ in
  \<^verbatim>\<open>content\<close>, \<^verbatim>\<open>isTyping\<close>, \<^verbatim>\<open>userId\<close> and \<^verbatim>\<open>connectionStatus\<close>).
\<close>

definition same_identity :: "ChatMessage \<Rightarrow> ChatMessage \<Rightarrow> bool" where
  "same_identity a b \<longleftrightarrow>
     type a = type b \<and> senderId a = senderId b \<and> receiverId a = receiverId b \<and>
     timestamp a = timestamp b \<and> callData a = callData b"

text \<open>
  The wire channels on which \<^verbatim>\<open>handleMessage\<close> is registered (lines 120-122).
\<close>

fun routed :: "msg_type \<Rightarrow> bool" where
  "routed Message = True"
| "routed VoiceCall = True"
| "routed IceCandidate = True"
| "routed ch = False"

text \<open>
  A transient entry of the emitter: a \<^verbatim>\<open>handleOffer\<close> closure on the
  \<^verbatim>\<open>voice_call\<close> channel whose promise is among the first \<open>n\<close>.
\<close>

definition offer_entry :: "nat \<Rightarrow> channel \<times> listener \<Rightarrow> bool" where
  "offer_entry n cl \<longleftrightarrow>
     fst cl = ChData VoiceCall \<and> (case snd cl of HandleOffer p sid \<Rightarrow> p < n | _ \<Rightarrow> False)"

text \<open>
  The service has a socket, set up as \<^verbatim>\<open>initializeConnection\<close> does (lines 78-129),
  with any number of transient \<^verbatim>\<open>getLastOffer\<close> listeners registered after that.
\<close>

definition wired :: "ChatService \<Rightarrow> bool" where
  "wired s \<longleftrightarrow>
     (case socket s of
        None \<Rightarrow> False
      | Some sk \<Rightarrow>
          take 7 (handlers sk) = standard_handlers \<and>
          list_all (offer_entry (length (promises s))) (drop 7 (handlers sk)))"

text \<open>An event that a pending \<^verbatim>\<open>getLastOffer(sid)\<close> is waiting for (line 201).\<close>

fun carries_offer :: "string \<Rightarrow> transport_event \<Rightarrow> bool" where
  "carries_offer sid (EvData ch m) \<longleftrightarrow>
     ch = VoiceCall \<and> type m = VoiceCall \<and> senderId m = Some sid \<and>
     (case callData m of None \<Rightarrow> False | Some c \<Rightarrow> offer c \<noteq> None)"
| "carries_offer sid ev \<longleftrightarrow> False"

text \<open>
  The promise a transient listener resolves, and the listeners of the current socket
  that resolve the promise \<open>p\<close>.
\<close>

fun offer_promise :: "listener \<Rightarrow> nat option" where
  "offer_promise (HandleOffer p sid) = Some p"
| "offer_promise l = None"

definition offer_listeners :: "nat \<Rightarrow> ChatService \<Rightarrow> (channel \<times> listener) list" where
  "offer_listeners p s =
     (case socket s of
        None \<Rightarrow> []
      | Some sk \<Rightarrow> filter (\<lambda>cl. offer_promise (snd cl) = Some p) (handlers sk))"

text \<open>
  From \<open>s\<close> to \<open>s'\<close> no promise is lost and no settled promise has changed.
\<close>

definition settled_kept :: "ChatService \<Rightarrow> ChatService \<Rightarrow> bool" where
  "settled_kept s s' \<longleftrightarrow>
     length (promises s) \<le> length (promises s') \<and>
     (\<forall>p v. p < length (promises s) \<and> promises s ! p = Resolved v \<longrightarrow>
            promises s' ! p = Resolved v)"

text \<open>The pending timers whose callback is the automatic stop-typing call.\<close>

fun is_typing :: "timer_action \<Rightarrow> bool" where
  "is_typing (TypingAutoClear r) = True"
| "is_typing (OfferTimeout p sid) = False"

definition typing_timers :: "ChatService \<Rightarrow> Timer list" where
  "typing_timers s = filter (\<lambda>x. is_typing (action x)) (timers s)"

text \<open>
  The bookkeeping of timers: handles are handed out once, in increasing order; a pending
  stop-typing timer is the one \<^verbatim>\<open>typingTimeoutId\<close> holds, and the handle in
  \<^verbatim>\<open>typingTimeoutId\<close> was handed out and is not the handle of a pending timer of
  another kind.
\<close>

definition timers_ok :: "ChatService \<Rightarrow> bool" where
  "timers_ok s \<longleftrightarrow>
     distinct (map handle (timers s)) \<and>
     list_all (\<lambda>x. handle x < nextTimer s) (timers s) \<and>
     list_all (\<lambda>x. typingTimeoutId s = Some (handle x)) (typing_timers s) \<and>
     (case typingTimeoutId s of
        None \<Rightarrow> True
      | Some h \<Rightarrow> h < nextTimer s \<and>
          list_all (\<lambda>x. handle x = h \<longrightarrow> is_typing (action x)) (timers s))"

text \<open>
  What leaves the timers alone: the pending timers, the next handle, the handle kept
  for the stop-typing timer and the clock are the same, and no automatic stop-typing
  call was logged.
\<close>

definition timer_frame :: "ChatService \<Rightarrow> ChatService \<Rightarrow> bool" where
  "timer_frame s s' \<longleftrightarrow>
     timers s' = timers s \<and> nextTimer s' = nextTimer s \<and>
     typingTimeoutId s' = typingTimeoutId s \<and> now s' = now s \<and>
     auto_cleared (effects s') = auto_cleared (effects s)"


text \<open>
  The bookkeeping of promises: a pending timeout of \<^verbatim>\<open>getLastOffer\<close> belongs to a
  promise that was handed out.
\<close>

definition timeouts_ok :: "ChatService \<Rightarrow> bool" where
  "timeouts_ok s \<longleftrightarrow>
     list_all (\<lambda>x. case action x of
                     OfferTimeout q sid \<Rightarrow> q < length (promises s)
                   | TypingAutoClear r \<Rightarrow> True) (timers s)"





section \<open>Example states\<close>

text \<open>
  A platform, and the service of user \<^verbatim>\<open>A\<close> once its socket is connected and two
  callbacks have subscribed; a message from \<^verbatim>\<open>B\<close> to \<^verbatim>\<open>A\<close> and one that
  \<^verbatim>\<open>A\<close> sent.
\<close>

definition P0 :: platform where
  "P0 = \<lparr>stringify = (\<lambda>c. ''{}''), toISOString = (\<lambda>t. ''T'')\<rparr>"

definition demo :: ChatService where
  "demo =
     \<lparr>socket = Some \<lparr>connected = True, handlers = standard_handlers\<rparr>,
      messageCallbacks = [1, 2], connectionState = Connected, reconnectAttempts = 0,
      messageSet = {}, typingTimeoutId = None, currentUser = Some ''A'', now = 0,
      timers = [], nextTimer = 1, promises = [], awaitingToken = 0, emitFault = None,
      effects = []\<rparr>"

definition msgB :: ChatMessage where
  "msgB = (blank Message)\<lparr>senderId := Some ''B'', receiverId := Some ''A'',
     timestamp := Some ''T1'', content := Some ''hello''\<rparr>"

definition msgA :: ChatMessage where
  "msgA = (blank Message)\<lparr>senderId := Some ''A'', receiverId := Some ''B'',
     timestamp := Some ''T1'', content := Some ''hello''\<rparr>"

text \<open>Typing events addressed to \<^verbatim>\<open>A\<close>, from \<^verbatim>\<open>A\<close> and from \<^verbatim>\<open>B\<close>.\<close>

definition typingA :: ChatMessage where
  "typingA = (blank Typing)\<lparr>senderId := Some ''A'', receiverId := Some ''A'',
     isTyping := Some True, timestamp := Some ''T2''\<rparr>"

definition typingB :: ChatMessage where
  "typingB = (blank Typing)\<lparr>senderId := Some ''B'', receiverId := Some ''A'',
     isTyping := Some True\<rparr>"

text \<open>
  An event of type \<^verbatim>\<open>message\<close> from \<^verbatim>\<open>A\<close> to \<^verbatim>\<open>A\<close> (it will be put on the
  typing channel).
\<close>

definition noteA :: ChatMessage where
  "noteA = (blank Message)\<lparr>senderId := Some ''A'', receiverId := Some ''A'',
     timestamp := Some ''T3'', content := Some ''note''\<rparr>"

text \<open>The example service with its socket disconnected.\<close>

definition offline :: ChatService where
  "offline = demo\<lparr>socket := Some \<lparr>connected = False, handlers = standard_handlers\<rparr>,
     connectionState := Disconnected\<rparr>"

text \<open>The example service with a stop-typing timer pending and a key in the cache.\<close>

definition typingPending :: ChatService where
  "typingPending = demo\<lparr>typingTimeoutId := Some 1,
     timers := [\<lparr>handle = 1, due = 3000, action = TypingAutoClear ''B''\<rparr>], nextTimer := 2,
     messageSet := {''k''}\<rparr>"





section \<open>Auxiliary facts\<close>

text \<open>
  The example state is the one a new service reaches when the token arrives, the
  transport connects and two callbacks subscribe (up to the log of effects).
\<close>

lemma demo_reachable:
  "run P0 [TokenSettled None, Inbound EvConnect, Subscribe 1, Subscribe 2]
     (new_ChatService P0 0 (Some ''A'')) =
   demo\<lparr>effects := [Emit UserConnected
      ((blank UserConnected)\<lparr>senderId := Some ''A'', timestamp := Some ''T''\<rparr>)]\<rparr>"
  by (simp add: demo_def run_def new_ChatService_def fresh_def initializeConnection_def
      initializeConnection_resume_def socket_connected_def notifyConnectionStatus_def fanout_def
      receive_def listeners_on_def standard_handlers_def onConnect_def socket_emit_def
      onMessage_def Let_def P0_def)

subsection \<open>Logs\<close>

lemma same_identity_key:
  "same_identity a b \<Longrightarrow> generateMessageId P a = generateMessageId P b"
  by (simp add: same_identity_def generateMessageId_def)

lemma notified_append: "notified c (xs @ ys) = notified c xs @ notified c ys"
  by (induction c xs rule: notified.induct) simp_all

lemma emitted_append: "emitted (xs @ ys) = emitted xs @ emitted ys"
  by (induction xs rule: emitted.induct) simp_all

lemma auto_cleared_append: "auto_cleared (xs @ ys) = auto_cleared xs @ auto_cleared ys"
  by (induction xs rule: auto_cleared.induct) simp_all

lemma notified_fanout_other:
  "c \<notin> set cs \<Longrightarrow> notified c (map (\<lambda>c'. Notify c' m) cs) = []"
  by (induction cs) auto

lemma notified_fanout_distinct:
  "distinct cs \<Longrightarrow> c \<in> set cs \<Longrightarrow> notified c (map (\<lambda>c'. Notify c' m) cs) = [m]"
  by (induction cs) (auto simp: notified_fanout_other)

lemma emitted_fanout: "emitted (map (\<lambda>c'. Notify c' m) cs) = []"
  by (induction cs) simp_all

lemma auto_cleared_fanout: "auto_cleared (map (\<lambda>c'. Notify c' m) cs) = []"
  by (induction cs) simp_all

lemma wired_handlers:
  assumes "wired s"
  obtains sk os where "socket s = Some sk" "handlers sk = standard_handlers @ os"
    "list_all (offer_entry (length (promises s))) os"
proof -
  from assms obtain sk where sk: "socket s = Some sk"
    and t: "take 7 (handlers sk) = standard_handlers"
    and d: "list_all (offer_entry (length (promises s))) (drop 7 (handlers sk))"
    by (auto simp: wired_def split: option.splits)
  have "handlers sk = take 7 (handlers sk) @ drop 7 (handlers sk)" by simp
  with t have "handlers sk = standard_handlers @ drop 7 (handlers sk)" by simp
  with sk d show thesis using that by blast
qed

lemma wiredI:
  "socket s = Some sk \<Longrightarrow> handlers sk = standard_handlers @ os \<Longrightarrow>
   list_all (offer_entry (length (promises s))) os \<Longrightarrow> wired s"
  by (simp add: wired_def standard_handlers_def)

lemma listeners_on_offers:
  "list_all (offer_entry n) os \<Longrightarrow> ch \<noteq> ChData VoiceCall \<Longrightarrow>
   filter (\<lambda>cl. fst cl = ch) os = []"
  by (induction os) (auto simp: offer_entry_def)

lemma listeners_on_offers_voice:
  "list_all (offer_entry n) os \<Longrightarrow> filter (\<lambda>cl. fst cl = ChData VoiceCall) os = os"
  by (induction os) (auto simp: offer_entry_def)


lemma routed_cases:
  "routed ch \<Longrightarrow> ch = Message \<or> ch = VoiceCall \<or> ch = IceCandidate"
  by (cases ch) simp_all

lemma resolve_frame: "resolve p v s = s\<lparr>promises := promises (resolve p v s)\<rparr>"
  by (simp add: resolve_def)

lemma resolve_length [simp]: "length (promises (resolve p v s)) = length (promises s)"
  by (simp add: resolve_def)

lemma socket_off_frame: "socket_off ch l s = s\<lparr>socket := socket (socket_off ch l s)\<rparr>"
  by (simp add: socket_off_def split: option.splits)

lemma handleOffer_frame:
  "handleOffer p sid m s =
   s\<lparr>socket := socket (handleOffer p sid m s), promises := promises (handleOffer p sid m s)\<rparr>"
  by (simp add: handleOffer_def resolve_def socket_off_def split: option.splits)

lemma handleOffer_connected:
  "socket_connected (handleOffer p sid m s) = socket_connected s"
  by (simp add: handleOffer_def resolve_def socket_off_def socket_connected_def
      split: option.splits)

lemma wired_handleOffer: "wired s \<Longrightarrow> wired (handleOffer p sid m s)"
proof -
  assume w: "wired s"
  then obtain sk os where sk: "socket s = Some sk"
    and h: "handlers sk = standard_handlers @ os"
    and os: "list_all (offer_entry (length (promises s))) os"
    by (rule wired_handlers)
  let ?x = "(ChData VoiceCall, HandleOffer p sid)"
  let ?s = "resolve p v (socket_off (ChData VoiceCall) (HandleOffer p sid) s)"
  have notin: "?x \<notin> set standard_handlers" by (simp add: standard_handlers_def)
  have rm: "remove1 ?x (handlers sk) = standard_handlers @ remove1 ?x os"
    using notin by (simp add: h remove1_append)
  have os': "list_all (offer_entry (length (promises s))) (remove1 ?x os)"
    using os by (auto simp: list_all_iff dest: notin_set_remove1)
  have "wired (resolve p v (socket_off (ChData VoiceCall) (HandleOffer p sid) s))" for v
  proof (rule wiredI)
    show "socket (resolve p v (socket_off (ChData VoiceCall) (HandleOffer p sid) s))
          = Some (sk\<lparr>handlers := remove1 ?x (handlers sk)\<rparr>)"
      by (simp add: resolve_def socket_off_def sk)
    show "handlers (sk\<lparr>handlers := remove1 ?x (handlers sk)\<rparr>) = standard_handlers @ remove1 ?x os"
      by (simp add: rm)
    show "list_all (offer_entry (length (promises (resolve p v
            (socket_off (ChData VoiceCall) (HandleOffer p sid) s))))) (remove1 ?x os)"
      using os' by (simp add: socket_off_def sk)
  qed
  with w show ?thesis
    by (simp add: handleOffer_def split: option.splits)
qed

lemma run_offer_listeners:
  "list_all (offer_entry n) os \<Longrightarrow> wired s \<Longrightarrow>
   \<exists>s'. run_listeners P (map snd os) (EvData ch m) s = (Normal, s') \<and>
        s' = s\<lparr>socket := socket s', promises := promises s'\<rparr> \<and> wired s' \<and>
        socket_connected s' = socket_connected s"
proof (induction os arbitrary: s)
  case Nil
  then show ?case by simp
next
  case (Cons cl os)
  from Cons.prems(1) obtain p sid where l: "snd cl = HandleOffer p sid"
    by (auto simp: offer_entry_def split: listener.splits)
  let ?s1 = "handleOffer p sid m s"
  from Cons.prems have "list_all (offer_entry n) os" and "wired ?s1"
    by (simp_all add: wired_handleOffer)
  from Cons.IH [OF this] obtain s' where
    r: "run_listeners P (map snd os) (EvData ch m) ?s1 = (Normal, s')"
    and f: "s' = ?s1\<lparr>socket := socket s', promises := promises s'\<rparr>" and w: "wired s'"
    and c: "socket_connected s' = socket_connected ?s1"
    by blast
  have "s' = s\<lparr>socket := socket s', promises := promises s'\<rparr>"
    by (subst f, subst handleOffer_frame) simp
  with r w c show ?case by (simp add: l handleOffer_connected)
qed

lemma handleMessage_frame:
  "handleMessage P m s =
   s\<lparr>messageSet := messageSet (handleMessage P m s), effects := effects (handleMessage P m s)\<rparr>"
  by (simp add: handleMessage_def fanout_def Let_def)

lemma handleMessage_fields [simp]:
  "socket (handleMessage P m s) = socket s"
  "promises (handleMessage P m s) = promises s"
  "messageCallbacks (handleMessage P m s) = messageCallbacks s"
  "currentUser (handleMessage P m s) = currentUser s"
  by (simp_all add: handleMessage_def fanout_def Let_def)

lemma wired_cong:
  "socket s' = socket s \<Longrightarrow> length (promises s') = length (promises s) \<Longrightarrow>
   wired s' = wired s"
  by (simp add: wired_def split: option.splits)

lemma wired_handleMessage: "wired (handleMessage P m s) = wired s"
  by (rule wired_cong) simp_all

lemma receive_routed:
  assumes "wired s" and "routed ch"
  shows "\<exists>s'. receive P (EvData ch m) s = (Normal, s') \<and>
           s' = (handleMessage P m s)\<lparr>socket := socket s', promises := promises s'\<rparr> \<and>
           wired s' \<and> socket_connected s' = socket_connected s"
proof -
  from assms(1) obtain sk os where sk: "socket s = Some sk"
    and h: "handlers sk = standard_handlers @ os"
    and os: "list_all (offer_entry (length (promises s))) os"
    by (rule wired_handlers)
  have s: "s\<lparr>socket := Some sk\<rparr> = s" using sk by simp
  have w: "wired (handleMessage P m s)" using assms(1) by (simp add: wired_handleMessage)
  show ?thesis
  proof (cases "ch = VoiceCall")
    case True
    have "listeners_on (ChData ch) sk = HandleMessage # map snd os"
      using listeners_on_offers_voice [OF os]
      by (simp add: listeners_on_def h standard_handlers_def True)
    with run_offer_listeners [OF os w, of P ch m] show ?thesis
      by (auto simp: receive_def sk s socket_connected_def)
  next
    case False
    then have "filter (\<lambda>cl. fst cl = ChData ch) os = []"
      using listeners_on_offers [OF os] by simp
    then have "listeners_on (ChData ch) sk = [HandleMessage]"
      using routed_cases [OF assms(2)] False
      by (auto simp: listeners_on_def h standard_handlers_def)
    with w show ?thesis
      by (simp add: receive_def sk s socket_connected_def)
  qed
qed

lemma receive_typing:
  assumes "wired s"
  shows "receive P (EvData Typing m) s = (Normal, onTyping m s)"
proof -
  from assms(1) obtain sk os where sk: "socket s = Some sk"
    and h: "handlers sk = standard_handlers @ os"
    and os: "list_all (offer_entry (length (promises s))) os"
    by (rule wired_handlers)
  have s: "s\<lparr>socket := Some sk\<rparr> = s" using sk by simp
  have "filter (\<lambda>cl. fst cl = ChData Typing) os = []"
    using listeners_on_offers [OF os] by simp
  then have "listeners_on (ChData Typing) sk = [OnTyping]"
    by (auto simp: listeners_on_def h standard_handlers_def)
  then show ?thesis
    by (simp add: receive_def sk s)
qed

lemma receive_unrouted:
  assumes "wired s" and "ch = ConnectionStatus \<or> ch = UserConnected"
  shows "receive P (EvData ch m) s = (Normal, s)"
proof -
  from assms(1) obtain sk os where sk: "socket s = Some sk"
    and h: "handlers sk = standard_handlers @ os"
    and os: "list_all (offer_entry (length (promises s))) os"
    by (rule wired_handlers)
  have s: "s\<lparr>socket := Some sk\<rparr> = s" using sk by simp
  have "filter (\<lambda>cl. fst cl = ChData ch) os = []"
    using listeners_on_offers [OF os, of "ChData ch"] assms(2) by auto
  then have "listeners_on (ChData ch) sk = []"
    using assms(2) by (auto simp: listeners_on_def h standard_handlers_def)
  then show ?thesis
    by (simp add: receive_def sk s)
qed


section \<open>The properties\<close>

subsection \<open>C1: a repeated event is delivered once\<close>

lemma handleMessage_twice:
  assumes "same_identity e e'"
  shows "handleMessage P e' (handleMessage P e s) = handleMessage P e s"
  using assms same_identity_key [OF assms, of P]
  by (simp add: handleMessage_def fanout_def Let_def same_identity_def)

lemma handleMessage_effects:
  "type e \<noteq> Typing \<Longrightarrow>
   effects (handleMessage P e s) =
   effects s @ (if senderId e \<noteq> currentUser s \<and> generateMessageId P e \<notin> messageSet s
                then map (\<lambda>c. Notify c e) (messageCallbacks s) else [])"
  by (simp add: handleMessage_def fanout_def Let_def)

lemma handleMessage_messageSet:
  "type e \<noteq> Typing \<Longrightarrow>
   messageSet (handleMessage P e s) =
   (if senderId e \<noteq> currentUser s \<and> generateMessageId P e \<notin> messageSet s
    then insert (generateMessageId P e) (messageSet s) else messageSet s)"
  by (simp add: handleMessage_def fanout_def Let_def)

text \<open>
  C1, as amended. An event of a type other than typing arrives twice on one of the
  channels \<^verbatim>\<open>handleMessage\<close> listens on, the second time with the same type,
  \<^verbatim>\<open>senderId\<close>, \<^verbatim>\<open>receiverId\<close>, timestamp and call data. If its sender is not the
  local identity and its dedup key is not in the cache, the first delivery records the key
  and invokes every subscriber with the event, and the second changes neither the cache
  nor the log: each subscriber is notified exactly once. Otherwise (an event of the local
  identity, or a key that is in the cache already) neither delivery notifies anybody.
\<close>

theorem C1_delivered_once:
  assumes "wired s" and "distinct (messageCallbacks s)" and "routed ch"
    and "type e \<noteq> Typing" and "same_identity e e'"
  shows "let key = generateMessageId P e;
             new = (senderId e \<noteq> currentUser s \<and> key \<notin> messageSet s);
             s1 = snd (receive P (EvData ch e) s);
             s2 = snd (receive P (EvData ch e') s1)
         in effects s1 = effects s @ (if new then map (\<lambda>c. Notify c e) (messageCallbacks s) else []) \<and>
            messageSet s1 = (if new then insert key (messageSet s) else messageSet s) \<and>
            effects s2 = effects s1 \<and> messageSet s2 = messageSet s1 \<and>
            (\<forall>c \<in> set (messageCallbacks s).
               notified c (effects s2) = notified c (effects s) @ (if new then [e] else []))"
proof -
  from receive_routed [OF assms(1,3), of P e] obtain s1 where
    r1: "receive P (EvData ch e) s = (Normal, s1)"
    and f1: "s1 = (handleMessage P e s)\<lparr>socket := socket s1, promises := promises s1\<rparr>"
    and w1: "wired s1" by blast
  from receive_routed [OF w1 assms(3), of P e'] obtain s2 where
    r2: "receive P (EvData ch e') s1 = (Normal, s2)"
    and f2: "s2 = (handleMessage P e' s1)\<lparr>socket := socket s2, promises := promises s2\<rparr>"
    by blast
  have hm: "handleMessage P e' s1 =
            (handleMessage P e' (handleMessage P e s))\<lparr>socket := socket s1, promises := promises s1\<rparr>"
    by (subst f1) (simp add: handleMessage_def fanout_def Let_def)
  have e1: "effects s1 = effects (handleMessage P e s)"
    and m1: "messageSet s1 = messageSet (handleMessage P e s)"
    by (subst f1, simp)+
  have e2: "effects s2 = effects s1" and m2: "messageSet s2 = messageSet s1"
    by (subst f2, simp add: hm handleMessage_twice [OF assms(5)] e1 m1)+
  show ?thesis
    using assms(2)
    by (simp add: r1 r2 Let_def e2 m2 e1 m1 handleMessage_effects [OF assms(4)]
        handleMessage_messageSet [OF assms(4)] notified_append notified_fanout_distinct)
qed

text \<open>
  The claim as stated, for every event of a type other than typing, fails for an event
  whose sender is the local identity: delivered twice to the connected service of
  \<^verbatim>\<open>A\<close>, the message sent by \<^verbatim>\<open>A\<close> reaches subscriber 1 not once but never.
  It also fails for an event whose key is in the cache already: once the message of
  \<^verbatim>\<open>B\<close> has been delivered, delivering it twice more adds nothing to what
  subscriber 1 has received.
\<close>

theorem C1_counterexample:
  "wired demo \<and> type msgA \<noteq> Typing \<and> messageCallbacks demo = [1, 2] \<and>
   notified 1 (effects (snd (receive P0 (EvData Message msgA)
      (snd (receive P0 (EvData Message msgA) demo))))) = [] \<and>
   type msgB \<noteq> Typing \<and> senderId msgB \<noteq> currentUser demo \<and>
   notified 1 (effects (snd (receive P0 (EvData Message msgB) demo))) = [msgB] \<and>
   notified 1 (effects (snd (receive P0 (EvData Message msgB)
      (snd (receive P0 (EvData Message msgB)
        (snd (receive P0 (EvData Message msgB) demo))))))) = [msgB]"
  by (simp add: demo_def msgA_def msgB_def blank_def wired_def standard_handlers_def
      offer_entry_def receive_def listeners_on_def handleMessage_def fanout_def Let_def)

text \<open>
  The message from \<^verbatim>\<open>B\<close>, repeated with another content, is delivered once to each
  of the two subscribers.
\<close>

theorem C1_witness:
  "wired demo \<and> distinct (messageCallbacks demo) \<and> routed Message \<and> type msgB \<noteq> Typing \<and>
   same_identity msgB (msgB\<lparr>content := Some ''other''\<rparr>) \<and>
   effects (snd (receive P0 (EvData Message (msgB\<lparr>content := Some ''other''\<rparr>))
      (snd (receive P0 (EvData Message msgB) demo)))) = [Notify 1 msgB, Notify 2 msgB]"
  using C1_delivered_once [of demo Message msgB "msgB\<lparr>content := Some ''other''\<rparr>" P0]
  by (simp add: demo_def msgB_def blank_def wired_def standard_handlers_def offer_entry_def
      same_identity_def Let_def generateMessageId_def)

subsection \<open>C2 and C3: events of the local identity, typing events\<close>

lemma onTyping_effects:
  "onTyping e s =
   (if receiverId e = currentUser s
    then s\<lparr>effects := effects s @ map (\<lambda>c. Notify c e) (messageCallbacks s)\<rparr> else s)"
  by (simp add: onTyping_def fanout_def)

lemma handleMessage_own:
  "senderId e = currentUser s \<Longrightarrow> type e \<noteq> Typing \<Longrightarrow> handleMessage P e s = s"
  by (simp add: handleMessage_def)

lemma handleMessage_typing_effects:
  "type e = Typing \<Longrightarrow>
   effects (handleMessage P e s) =
   effects s @ (if generateMessageId P e \<notin> messageSet s
                then map (\<lambda>c. Notify c e) (messageCallbacks s) else [])"
  by (simp add: handleMessage_def fanout_def Let_def)

lemma receive_routed_fields:
  assumes "wired s" and "routed ch"
  shows "effects (snd (receive P (EvData ch e) s)) = effects (handleMessage P e s)"
    and "messageSet (snd (receive P (EvData ch e) s)) = messageSet (handleMessage P e s)"
    and "messageCallbacks (snd (receive P (EvData ch e) s)) = messageCallbacks s"
    and "currentUser (snd (receive P (EvData ch e) s)) = currentUser s"
    and "wired (snd (receive P (EvData ch e) s))"
    and "fst (receive P (EvData ch e) s) = Normal"
    and "socket_connected (snd (receive P (EvData ch e) s)) = socket_connected s"
    and "emitFault (snd (receive P (EvData ch e) s)) = emitFault s"
proof -
  from receive_routed [OF assms, of P e] obtain s1 where
    r1: "receive P (EvData ch e) s = (Normal, s1)"
    and f1: "s1 = (handleMessage P e s)\<lparr>socket := socket s1, promises := promises s1\<rparr>"
    and w1: "wired s1" and c1: "socket_connected s1 = socket_connected s" by blast
  show "socket_connected (snd (receive P (EvData ch e) s)) = socket_connected s"
    using c1 by (simp add: r1)
  show "emitFault (snd (receive P (EvData ch e) s)) = emitFault s"
    unfolding r1 by (subst f1) (simp add: handleMessage_def fanout_def Let_def)
  show "effects (snd (receive P (EvData ch e) s)) = effects (handleMessage P e s)"
    unfolding r1 by (subst f1) simp
  show "messageSet (snd (receive P (EvData ch e) s)) = messageSet (handleMessage P e s)"
    unfolding r1 by (subst f1) simp
  show "messageCallbacks (snd (receive P (EvData ch e) s)) = messageCallbacks s"
    unfolding r1 by (subst f1) simp
  show "currentUser (snd (receive P (EvData ch e) s)) = currentUser s"
    unfolding r1 by (subst f1) simp
  show "wired (snd (receive P (EvData ch e) s))" using w1 by (simp add: r1)
  show "fst (receive P (EvData ch e) s) = Normal" by (simp add: r1)
qed

text \<open>
  C2, with the channel named. The service tells events apart by the channel they arrive
  on, and \<^verbatim>\<open>handleMessage\<close> reads the \<^verbatim>\<open>type\<close> field besides. For an event whose
  \<^verbatim>\<open>senderId\<close> is the local identity:

  \<^item> if its \<^verbatim>\<open>type\<close> is not typing and it arrives on any channel but the typing channel,
    the log of effects and the cache stay as they are: no subscriber is invoked;

  \<^item> if its \<^verbatim>\<open>type\<close> is typing and it arrives on the \<^verbatim>\<open>message\<close>, \<^verbatim>\<open>voice_call\<close> or
    \<^verbatim>\<open>ice-candidate\<close> channel, the rule does not apply: it is handed to every
    subscriber exactly when its key is new;

  \<^item> on the typing channel neither the sender nor the \<^verbatim>\<open>type\<close> is looked at: whatever
    its \<^verbatim>\<open>type\<close>, the event is handed to every subscriber exactly when its
    \<^verbatim>\<open>receiverId\<close> is the local identity.
\<close>

theorem C2_own_events_dropped:
  assumes "wired s" and "senderId e = currentUser s"
  shows "(type e \<noteq> Typing \<and> ch \<noteq> Typing \<longrightarrow>
            effects (snd (receive P (EvData ch e) s)) = effects s \<and>
            messageSet (snd (receive P (EvData ch e) s)) = messageSet s) \<and>
         (type e = Typing \<and> routed ch \<longrightarrow>
            effects (snd (receive P (EvData ch e) s)) =
            effects s @ (if generateMessageId P e \<notin> messageSet s
                         then map (\<lambda>c. Notify c e) (messageCallbacks s) else [])) \<and>
         effects (snd (receive P (EvData Typing e) s)) =
            effects s @ (if receiverId e = currentUser s
                         then map (\<lambda>c. Notify c e) (messageCallbacks s) else [])"
proof (intro conjI impI)
  assume a: "type e \<noteq> Typing \<and> ch \<noteq> Typing"
  show "effects (snd (receive P (EvData ch e) s)) = effects s"
  proof (cases "routed ch")
    case True
    with assms a show ?thesis by (simp add: receive_routed_fields handleMessage_own)
  next
    case False
    with a have "ch = ConnectionStatus \<or> ch = UserConnected" by (cases ch) simp_all
    with assms(1) show ?thesis by (simp add: receive_unrouted)
  qed
  show "messageSet (snd (receive P (EvData ch e) s)) = messageSet s"
  proof (cases "routed ch")
    case True
    with assms a show ?thesis by (simp add: receive_routed_fields handleMessage_own)
  next
    case False
    with a have "ch = ConnectionStatus \<or> ch = UserConnected" by (cases ch) simp_all
    with assms(1) show ?thesis by (simp add: receive_unrouted)
  qed
next
  assume "type e = Typing \<and> routed ch"
  with assms(1) show "effects (snd (receive P (EvData ch e) s)) =
        effects s @ (if generateMessageId P e \<notin> messageSet s
                     then map (\<lambda>c. Notify c e) (messageCallbacks s) else [])"
    by (simp add: receive_routed_fields handleMessage_typing_effects)
next
  show "effects (snd (receive P (EvData Typing e) s)) =
        effects s @ (if receiverId e = currentUser s
                     then map (\<lambda>c. Notify c e) (messageCallbacks s) else [])"
    using assms(1) by (simp add: receive_typing onTyping_effects)
qed

text \<open>
  The claim as stated, for every inbound event of the local identity whose type is not
  typing, fails on the typing channel: the listener of lines 125-129 tests neither the
  sender nor the type, so an event of type \<^verbatim>\<open>message\<close> from \<^verbatim>\<open>A\<close> to \<^verbatim>\<open>A\<close>
  arriving there is handed to both subscribers of the service of \<^verbatim>\<open>A\<close>.
\<close>

theorem C2_counterexample:
  "wired demo \<and> senderId noteA = currentUser demo \<and> type noteA \<noteq> Typing \<and>
   messageCallbacks demo = [1, 2] \<and>
   effects (snd (receive P0 (EvData Typing noteA) demo)) = [Notify 1 noteA, Notify 2 noteA]"
  by (simp add: demo_def noteA_def blank_def wired_def standard_handlers_def offer_entry_def
      receive_def listeners_on_def onTyping_def fanout_def Let_def)

text \<open>
  The message \<^verbatim>\<open>A\<close> sent is dropped by the service of \<^verbatim>\<open>A\<close> on the
  \<^verbatim>\<open>message\<close> channel; a typing event from \<^verbatim>\<open>A\<close> to \<^verbatim>\<open>A\<close> reaches both
  subscribers on the typing channel, and on the \<^verbatim>\<open>message\<close> channel as well (its key
  is new).
\<close>

theorem C2_witness:
  "wired demo \<and> senderId msgA = currentUser demo \<and> type msgA \<noteq> Typing \<and>
   effects (snd (receive P0 (EvData Message msgA) demo)) = [] \<and>
   messageSet (snd (receive P0 (EvData Message msgA) demo)) = {} \<and>
   senderId typingA = currentUser demo \<and> type typingA = Typing \<and> routed Message \<and>
   effects (snd (receive P0 (EvData Typing typingA) demo)) = [Notify 1 typingA, Notify 2 typingA] \<and>
   effects (snd (receive P0 (EvData Message typingA) demo)) = [Notify 1 typingA, Notify 2 typingA]"
  using C2_own_events_dropped [of demo msgA Message P0]
    C2_own_events_dropped [of demo typingA Message P0]
  by (simp add: demo_def msgA_def typingA_def blank_def wired_def standard_handlers_def
      offer_entry_def)

text \<open>
  C3. An event on the typing channel is handed to every subscriber if its
  \<^verbatim>\<open>receiverId\<close> is the local identity and to nobody otherwise, whatever the cache
  holds, and the state changes in nothing but the log: the cache is neither read nor
  written. The same payload delivered twice therefore notifies each subscriber twice.
\<close>

theorem C3_typing_not_deduplicated:
  assumes "wired s"
  shows "receive P (EvData Typing e) s =
           (Normal, if receiverId e = currentUser s
                    then s\<lparr>effects := effects s @ map (\<lambda>c. Notify c e) (messageCallbacks s)\<rparr>
                    else s) \<and>
         messageSet (snd (receive P (EvData Typing e) s)) = messageSet s \<and>
         (receiverId e = currentUser s \<longrightarrow>
            effects (snd (receive P (EvData Typing e) (snd (receive P (EvData Typing e) s)))) =
            effects s @ map (\<lambda>c. Notify c e) (messageCallbacks s)
                      @ map (\<lambda>c. Notify c e) (messageCallbacks s) \<and>
            (distinct (messageCallbacks s) \<longrightarrow>
               (\<forall>c \<in> set (messageCallbacks s).
                  notified c (effects (snd (receive P (EvData Typing e)
                     (snd (receive P (EvData Typing e) s))))) =
                  notified c (effects s) @ [e, e])))"
proof -
  let ?fan = "map (\<lambda>c. Notify c e) (messageCallbacks s)"
  let ?s1 = "s\<lparr>effects := effects s @ ?fan\<rparr>"
  have r: "receive P (EvData Typing e) s = (Normal, onTyping e s)"
    using assms by (rule receive_typing)
  have w1: "wired ?s1" using assms by (simp add: wired_cong [of ?s1 s])
  have r1: "receive P (EvData Typing e) ?s1 = (Normal, onTyping e ?s1)"
    using w1 by (rule receive_typing)
  show ?thesis
    by (auto simp: r r1 onTyping_effects notified_append notified_fanout_distinct)
qed

text \<open>The typing event from \<^verbatim>\<open>B\<close>, delivered twice, is handed out twice.\<close>

theorem C3_witness:
  "wired demo \<and> receiverId typingB = currentUser demo \<and> distinct (messageCallbacks demo) \<and>
   effects (snd (receive P0 (EvData Typing typingB) (snd (receive P0 (EvData Typing typingB) demo))))
     = [Notify 1 typingB, Notify 2 typingB, Notify 1 typingB, Notify 2 typingB] \<and>
   messageSet (snd (receive P0 (EvData Typing typingB) demo)) = {}"
proof -
  have w: "wired demo"
    by (simp add: demo_def wired_def standard_handlers_def offer_entry_def)
  have f: "receiverId typingB = currentUser demo" "messageCallbacks demo = [1, 2]"
    "effects demo = []" "messageSet demo = {}"
    by (simp_all add: demo_def typingB_def blank_def)
  from C3_typing_not_deduplicated [OF w, of P0 typingB] show ?thesis
    using w f by auto
qed

subsection \<open>C7: sending\<close>

lemma initializeConnection_connected:
  "socket_connected s \<Longrightarrow> initializeConnection P s = (Settled Normal, s)"
  by (simp add: initializeConnection_def)

lemma initializeConnection_quiet:
  "emitted (effects (snd (initializeConnection P s))) = emitted (effects s)"
  "messageSet (snd (initializeConnection P s)) = messageSet s"
  by (simp_all add: initializeConnection_def notifyConnectionStatus_def fanout_def Let_def
      emitted_append emitted_fanout split: option.splits)

lemma sendMessage_returns: "fst (sendMessage P m s) = Normal"
  by (simp add: sendMessage_def Let_def split: prod.splits completion.splits)

lemma sendMessage_new:
  assumes "socket_connected s" and "type m \<noteq> Typing" and "generateMessageId P m \<notin> messageSet s"
  shows "snd (sendMessage P m s) =
        (case emitFault s of
           None \<Rightarrow> s\<lparr>messageSet := insert (generateMessageId P m) (messageSet s),
                      effects := effects s @ [Emit (type m) m]\<rparr>
         | Some e \<Rightarrow> s\<lparr>messageSet := insert (generateMessageId P m) (messageSet s)\<rparr>)"
proof -
  from assms(1) obtain sk where sk: "socket s = Some sk" "connected sk"
    by (auto simp: socket_connected_def split: option.splits)
  let ?s1 = "s\<lparr>messageSet := insert (generateMessageId P m) (messageSet s)\<rparr>"
  have c1: "socket_connected ?s1" using sk by (simp add: socket_connected_def)
  show ?thesis
    using assms sk initializeConnection_connected [OF c1, of P]
    by (simp add: sendMessage_def Let_def socket_emit_def split: option.splits)
qed

lemma sendMessage_duplicate:
  "socket_connected s \<Longrightarrow> type m \<noteq> Typing \<Longrightarrow> generateMessageId P m \<in> messageSet s \<Longrightarrow>
   sendMessage P m s = (Normal, s)"
  by (simp add: sendMessage_def Let_def)

lemma sendMessage_typing:
  assumes "socket_connected s" and "type m = Typing"
  shows "snd (sendMessage P m s) =
        (case emitFault s of None \<Rightarrow> s\<lparr>effects := effects s @ [Emit Typing m]\<rparr> | Some e \<Rightarrow> s)"
proof -
  from assms(1) obtain sk where sk: "socket s = Some sk" "connected sk"
    by (auto simp: socket_connected_def split: option.splits)
  show ?thesis
    using assms sk initializeConnection_connected [of s P]
    by (simp add: sendMessage_def Let_def socket_emit_def split: option.splits)
qed

lemma sendMessage_disconnected:
  "\<not> socket_connected s \<Longrightarrow> snd (sendMessage P m s) = snd (initializeConnection P s)"
  by (simp add: sendMessage_def)

lemma initializeConnection_suspends:
  assumes "currentUser s \<noteq> None" and "\<not> socket_connected s"
  shows "initializeConnection P s =
     (Suspended,
      s\<lparr>connectionState := Connecting,
        effects := effects s @
          map (\<lambda>c. Notify c (statusMessage P (s\<lparr>connectionState := Connecting\<rparr>))) (messageCallbacks s) @
          (case socket s of None \<Rightarrow> [] | Some sk \<Rightarrow> [SocketClosed]),
        socket := None, awaitingToken := Suc (awaitingToken s)\<rparr>)"
  using assms
  by (simp add: initializeConnection_def notifyConnectionStatus_def fanout_def Let_def
      split: option.splits)

text \<open>
  C7. \<^verbatim>\<open>sendMessage\<close> never raises. On a connected socket, an event of a type other
  than typing whose key is not in the cache is recorded and then handed to
  \<^verbatim>\<open>socket.emit\<close> on the channel of its type; the key is recorded even when
  \<^verbatim>\<open>emit\<close> raises, and the exception is swallowed. An event whose key is in the
  cache changes nothing. A typing event is handed to \<^verbatim>\<open>emit\<close> whatever the cache
  holds, and the cache stays as it is. Without a connected socket the call is the
  (unawaited) call of \<^verbatim>\<open>initializeConnection\<close>: nothing is emitted, the cache is
  untouched, and with a signed-in user the state becomes connecting with one more
  initialisation suspended.
\<close>

theorem C7_sendMessage:
  "fst (sendMessage P m s) = Normal \<and>
   (socket_connected s \<and> type m \<noteq> Typing \<and> generateMessageId P m \<notin> messageSet s \<longrightarrow>
      snd (sendMessage P m s) =
        (case emitFault s of
           None \<Rightarrow> s\<lparr>messageSet := insert (generateMessageId P m) (messageSet s),
                      effects := effects s @ [Emit (type m) m]\<rparr>
         | Some e \<Rightarrow> s\<lparr>messageSet := insert (generateMessageId P m) (messageSet s)\<rparr>)) \<and>
   (socket_connected s \<and> type m \<noteq> Typing \<and> generateMessageId P m \<in> messageSet s \<longrightarrow>
      snd (sendMessage P m s) = s) \<and>
   (socket_connected s \<and> type m = Typing \<longrightarrow>
      snd (sendMessage P m s) =
        (case emitFault s of
           None \<Rightarrow> s\<lparr>effects := effects s @ [Emit Typing m]\<rparr>
         | Some e \<Rightarrow> s)) \<and>
   (\<not> socket_connected s \<longrightarrow>
      snd (sendMessage P m s) = snd (initializeConnection P s) \<and>
      emitted (effects (snd (sendMessage P m s))) = emitted (effects s) \<and>
      messageSet (snd (sendMessage P m s)) = messageSet s \<and>
      (currentUser s \<noteq> None \<longrightarrow>
         connectionState (snd (sendMessage P m s)) = Connecting \<and>
         awaitingToken (snd (sendMessage P m s)) = Suc (awaitingToken s)))"
proof (intro conjI impI)
  show "fst (sendMessage P m s) = Normal" by (rule sendMessage_returns)
next
  assume "socket_connected s \<and> type m \<noteq> Typing \<and> generateMessageId P m \<notin> messageSet s"
  then show "snd (sendMessage P m s) =
        (case emitFault s of
           None \<Rightarrow> s\<lparr>messageSet := insert (generateMessageId P m) (messageSet s),
                      effects := effects s @ [Emit (type m) m]\<rparr>
         | Some e \<Rightarrow> s\<lparr>messageSet := insert (generateMessageId P m) (messageSet s)\<rparr>)"
    by (simp add: sendMessage_new)
next
  assume "socket_connected s \<and> type m \<noteq> Typing \<and> generateMessageId P m \<in> messageSet s"
  then show "snd (sendMessage P m s) = s" by (simp add: sendMessage_duplicate)
next
  assume "socket_connected s \<and> type m = Typing"
  then show "snd (sendMessage P m s) =
        (case emitFault s of None \<Rightarrow> s\<lparr>effects := effects s @ [Emit Typing m]\<rparr> | Some e \<Rightarrow> s)"
    by (simp add: sendMessage_typing)
next
  assume a: "\<not> socket_connected s"
  then show d: "snd (sendMessage P m s) = snd (initializeConnection P s)"
    by (rule sendMessage_disconnected)
  then show "emitted (effects (snd (sendMessage P m s))) = emitted (effects s)"
    and "messageSet (snd (sendMessage P m s)) = messageSet s"
    by (simp_all add: initializeConnection_quiet)
  assume "currentUser s \<noteq> None"
  from initializeConnection_suspends [OF this a, of P]
  show "connectionState (snd (sendMessage P m s)) = Connecting"
    and "awaitingToken (snd (sendMessage P m s)) = Suc (awaitingToken s)"
    by (simp_all add: d)
qed

text \<open>
  On the connected example service the message of \<^verbatim>\<open>A\<close> has the key
  \<^verbatim>\<open>message-A-B-T1-""\<close>; it is emitted once when sent twice, a typing event sent
  twice is emitted twice, a raising transport leaves the key recorded and nothing raised,
  and on the disconnected service nothing is emitted and the state becomes connecting.
\<close>

theorem C7_witness:
  "socket_connected demo \<and> type msgA \<noteq> Typing \<and> emitFault demo = None \<and>
   generateMessageId P0 msgA = ''message-A-B-T1-'' @ [CHR 0x22, CHR 0x22] \<and>
   generateMessageId P0 msgA \<notin> messageSet demo \<and>
   emitted (effects (snd (sendMessage P0 msgA demo))) = [(Message, msgA)] \<and>
   emitted (effects (snd (sendMessage P0 msgA (snd (sendMessage P0 msgA demo))))) = [(Message, msgA)] \<and>
   emitted (effects (snd (sendMessage P0 typingA (snd (sendMessage P0 typingA demo)))))
     = [(Typing, typingA), (Typing, typingA)] \<and>
   messageSet (snd (sendMessage P0 msgA (demo\<lparr>emitFault := Some (Error ''x'')\<rparr>)))
     = {generateMessageId P0 msgA} \<and>
   effects (snd (sendMessage P0 msgA (demo\<lparr>emitFault := Some (Error ''x'')\<rparr>))) = [] \<and>
   fst (sendMessage P0 msgA (demo\<lparr>emitFault := Some (Error ''x'')\<rparr>)) = Normal \<and>
   \<not> socket_connected offline \<and>
   emitted (effects (snd (sendMessage P0 msgA offline))) = [] \<and>
   connectionState (snd (sendMessage P0 msgA offline)) = Connecting \<and>
   socket (snd (sendMessage P0 msgA offline)) = None"
proof -
  let ?k = "generateMessageId P0 msgA"
  let ?s1 = "demo\<lparr>messageSet := insert ?k (messageSet demo), effects := effects demo @ [Emit (type msgA) msgA]\<rparr>"
  let ?t1 = "demo\<lparr>effects := effects demo @ [Emit Typing typingA]\<rparr>"
  let ?f = "demo\<lparr>emitFault := Some (Error ''x'')\<rparr>"
  have d: "socket_connected demo" "type msgA \<noteq> Typing" "emitFault demo = None"
    by (simp_all add: demo_def msgA_def blank_def socket_connected_def)
  have d': "messageSet demo = {}" "effects demo = []" "type typingA = Typing" "type msgA = Message"
    by (simp_all add: demo_def msgA_def typingA_def blank_def)
  have k: "?k = ''message-A-B-T1-'' @ [CHR 0x22, CHR 0x22]"
    by (simp add: generateMessageId_def msgA_def blank_def template_def)
  have k': "?k \<notin> messageSet demo" by (simp add: d')
  have c1: "socket_connected ?s1" "socket_connected ?t1" "socket_connected ?f"
    by (simp_all add: demo_def socket_connected_def)
  have o: "\<not> socket_connected offline"
    by (simp add: offline_def demo_def socket_connected_def)
  have o': "currentUser offline = Some ''A''" "effects offline = []"
    by (simp_all add: offline_def demo_def)
  have a: "snd (sendMessage P0 msgA demo) = ?s1"
    using C7_sendMessage [of P0 msgA demo] d k' by simp
  have a': "emitted (effects (snd (sendMessage P0 msgA demo))) = [(Message, msgA)]"
    unfolding a by (simp add: d')
  have b: "emitted (effects (snd (sendMessage P0 msgA (snd (sendMessage P0 msgA demo))))) = [(Message, msgA)]"
    unfolding a using C7_sendMessage [of P0 msgA ?s1] d c1 by (simp add: d')
  have t: "snd (sendMessage P0 typingA demo) = ?t1"
    using C7_sendMessage [of P0 typingA demo] d d' by simp
  have t2: "emitted (effects (snd (sendMessage P0 typingA (snd (sendMessage P0 typingA demo)))))
     = [(Typing, typingA), (Typing, typingA)]"
    unfolding t using C7_sendMessage [of P0 typingA ?t1] d d' c1 by simp
  have f: "snd (sendMessage P0 msgA ?f) = ?f\<lparr>messageSet := insert ?k (messageSet ?f)\<rparr>"
    using C7_sendMessage [of P0 msgA ?f] d d' c1 by simp
  have f1: "messageSet (snd (sendMessage P0 msgA ?f)) = {?k}"
    and f2: "effects (snd (sendMessage P0 msgA ?f)) = []"
    unfolding f by (simp_all add: d')
  have f3: "fst (sendMessage P0 msgA ?f) = Normal"
    using C7_sendMessage [of P0 msgA ?f] by simp
  have g: "snd (sendMessage P0 msgA offline) = snd (initializeConnection P0 offline)"
    and g1: "emitted (effects (snd (sendMessage P0 msgA offline))) = []"
    and g2: "connectionState (snd (sendMessage P0 msgA offline)) = Connecting"
    using C7_sendMessage [of P0 msgA offline] o o' by auto
  have g3: "socket (snd (sendMessage P0 msgA offline)) = None"
    unfolding g
    by (simp add: offline_def demo_def initializeConnection_def socket_connected_def
        notifyConnectionStatus_def fanout_def Let_def)
  show ?thesis
    by (intro conjI) (fact d k k' a' b t2 f1 f2 f3 o g1 g2 g3)+
qed

subsection \<open>C8 and C9: initialising and closing\<close>


lemma initializeConnection_resume_success:
  "0 < awaitingToken s \<Longrightarrow> currentUser s \<noteq> None \<Longrightarrow>
   initializeConnection_resume P None s =
     (Normal,
      s\<lparr>awaitingToken := awaitingToken s - 1,
        socket := Some \<lparr>connected = False, handlers = standard_handlers\<rparr>\<rparr>)"
  by (auto simp: initializeConnection_resume_def Let_def)



lemma close_fields:
  "connectionState (close P s) = Disconnected"
  "socket (close P s) = None"
  "typingTimeoutId (close P s) = None"
  "messageCallbacks (close P s) = []"
  "messageSet (close P s) = {}"
  "currentUser (close P s) = currentUser s"
  "awaitingToken (close P s) = awaitingToken s"
  "promises (close P s) = promises s"
  by (simp_all add: close_def notifyConnectionStatus_def fanout_def clearTimeout_def Let_def
      split: option.splits)

lemma close_again: "close P (close P s) = close P s"
proof -
  have "close P t = t" if "typingTimeoutId t = None" "socket t = None"
    "messageCallbacks t = []" "messageSet t = {}" "connectionState t = Disconnected" for t
    using that by (simp add: close_def notifyConnectionStatus_def fanout_def Let_def)
  then show ?thesis by (simp add: close_fields)
qed

lemma close_typing_timers: "timers_ok s \<Longrightarrow> typing_timers (close P s) = []"
proof -
  assume ok: "timers_ok s"
  then have all: "\<forall>x \<in> set (typing_timers s). typingTimeoutId s = Some (handle x)"
    by (simp add: timers_ok_def list_all_iff)
  show ?thesis
  proof (cases "typingTimeoutId s")
    case None
    with all have "typing_timers s = []" by (cases "typing_timers s") auto
    with None show ?thesis
      by (simp add: close_def notifyConnectionStatus_def fanout_def Let_def typing_timers_def
          split: option.splits)
  next
    case (Some h)
    with all have "\<forall>x \<in> set (typing_timers s). handle x = h" by simp
    then have "filter (\<lambda>x. handle x \<noteq> h) (typing_timers s) = []"
      by (simp add: filter_empty_conv)
    then have "typing_timers (clearTimeout h s) = []"
      by (simp add: typing_timers_def clearTimeout_def conj_commute)
    with Some show ?thesis
      by (simp add: close_def notifyConnectionStatus_def fanout_def Let_def typing_timers_def
          clearTimeout_def split: option.splits)
  qed
qed

subsection \<open>Lifecycle events\<close>

lemma onConnect_fields:
  "messageSet (snd (onConnect P s)) = {}"
  "connectionState (snd (onConnect P s)) = Connected"
  "messageCallbacks (snd (onConnect P s)) = messageCallbacks s"
  "currentUser (snd (onConnect P s)) = currentUser s"
  "socket (snd (onConnect P s)) = socket s"
  "promises (snd (onConnect P s)) = promises s"
  "emitFault (snd (onConnect P s)) = emitFault s"
  by (simp_all add: onConnect_def notifyConnectionStatus_def fanout_def socket_emit_def Let_def
      split: option.splits)

lemma onDisconnect_fields:
  "messageSet (onDisconnect P s) = messageSet s"
  "connectionState (onDisconnect P s) = Disconnected"
  "messageCallbacks (onDisconnect P s) = messageCallbacks s"
  "currentUser (onDisconnect P s) = currentUser s"
  "socket (onDisconnect P s) = socket s"
  "promises (onDisconnect P s) = promises s"
  by (simp_all add: onDisconnect_def notifyConnectionStatus_def fanout_def)

lemma run_single: "run_listeners P [l] ev s = run_listener P l ev s"
  by (simp split: prod.splits completion.splits)

lemma receive_connect:
  assumes "wired s"
  obtains sk where "socket s = Some sk"
    and "receive P EvConnect s = onConnect P (s\<lparr>socket := Some (sk\<lparr>connected := True\<rparr>)\<rparr>)"
proof -
  from assms obtain sk os where sk: "socket s = Some sk"
    and h: "handlers sk = standard_handlers @ os"
    and os: "list_all (offer_entry (length (promises s))) os"
    by (rule wired_handlers)
  have "filter (\<lambda>cl. fst cl = ChConnect) os = []"
    using listeners_on_offers [OF os, of ChConnect] by simp
  then have "listeners_on ChConnect (sk\<lparr>connected := True\<rparr>) = [OnConnect]"
    by (simp add: listeners_on_def h standard_handlers_def)
  then have "receive P EvConnect s = onConnect P (s\<lparr>socket := Some (sk\<lparr>connected := True\<rparr>)\<rparr>)"
    by (simp add: receive_def sk run_single del: run_listeners.simps)
  with sk show thesis by (rule that)
qed

lemma receive_disconnect:
  assumes "wired s"
  obtains sk where "socket s = Some sk"
    and "receive P EvDisconnect s =
         (Normal, onDisconnect P (s\<lparr>socket := Some (sk\<lparr>connected := False\<rparr>)\<rparr>))"
proof -
  from assms obtain sk os where sk: "socket s = Some sk"
    and h: "handlers sk = standard_handlers @ os"
    and os: "list_all (offer_entry (length (promises s))) os"
    by (rule wired_handlers)
  have "filter (\<lambda>cl. fst cl = ChDisconnect) os = []"
    using listeners_on_offers [OF os, of ChDisconnect] by simp
  then have "listeners_on ChDisconnect (sk\<lparr>connected := False\<rparr>) = [OnDisconnect]"
    by (simp add: listeners_on_def h standard_handlers_def)
  then have "receive P EvDisconnect s =
      (Normal, onDisconnect P (s\<lparr>socket := Some (sk\<lparr>connected := False\<rparr>)\<rparr>))"
    by (simp add: receive_def sk)
  with sk show thesis by (rule that)
qed

lemma wired_connected_flag:
  "wired s \<Longrightarrow> socket s = Some sk \<Longrightarrow> socket s' = Some (sk\<lparr>connected := b\<rparr>) \<Longrightarrow>
   promises s' = promises s \<Longrightarrow> wired s'"
  by (simp add: wired_def)

lemma receive_connect_fields:
  assumes "wired s"
  shows "messageSet (snd (receive P EvConnect s)) = {}"
    and "connectionState (snd (receive P EvConnect s)) = Connected"
    and "messageCallbacks (snd (receive P EvConnect s)) = messageCallbacks s"
    and "currentUser (snd (receive P EvConnect s)) = currentUser s"
    and "emitFault (snd (receive P EvConnect s)) = emitFault s"
    and "wired (snd (receive P EvConnect s))"
    and "socket_connected (snd (receive P EvConnect s))"
proof -
  from assms obtain sk where sk: "socket s = Some sk"
    and r: "receive P EvConnect s = onConnect P (s\<lparr>socket := Some (sk\<lparr>connected := True\<rparr>)\<rparr>)"
    by (rule receive_connect)
  show "messageSet (snd (receive P EvConnect s)) = {}"
    and "connectionState (snd (receive P EvConnect s)) = Connected"
    and "messageCallbacks (snd (receive P EvConnect s)) = messageCallbacks s"
    and "currentUser (snd (receive P EvConnect s)) = currentUser s"
    and "emitFault (snd (receive P EvConnect s)) = emitFault s"
    by (simp_all add: r onConnect_fields)
  show "wired (snd (receive P EvConnect s))"
    by (rule wired_connected_flag [OF assms sk, of _ True]) (simp_all add: r onConnect_fields)
  show "socket_connected (snd (receive P EvConnect s))"
    by (simp add: r socket_connected_def onConnect_fields)
qed

lemma receive_disconnect_fields:
  assumes "wired s"
  shows "messageSet (snd (receive P EvDisconnect s)) = messageSet s"
    and "connectionState (snd (receive P EvDisconnect s)) = Disconnected"
    and "messageCallbacks (snd (receive P EvDisconnect s)) = messageCallbacks s"
    and "currentUser (snd (receive P EvDisconnect s)) = currentUser s"
    and "wired (snd (receive P EvDisconnect s))"
proof -
  from assms obtain sk where sk: "socket s = Some sk"
    and r: "receive P EvDisconnect s =
         (Normal, onDisconnect P (s\<lparr>socket := Some (sk\<lparr>connected := False\<rparr>)\<rparr>))"
    by (rule receive_disconnect)
  show "messageSet (snd (receive P EvDisconnect s)) = messageSet s"
    and "connectionState (snd (receive P EvDisconnect s)) = Disconnected"
    and "messageCallbacks (snd (receive P EvDisconnect s)) = messageCallbacks s"
    and "currentUser (snd (receive P EvDisconnect s)) = currentUser s"
    by (simp_all add: r onDisconnect_fields)
  show "wired (snd (receive P EvDisconnect s))"
    by (rule wired_connected_flag [OF assms sk, of _ False]) (simp_all add: r onDisconnect_fields)
qed

text \<open>
  C9. \<^verbatim>\<open>close\<close> after \<^verbatim>\<open>close\<close> returns the state of the first call, which is
  disconnected, without a socket, without a typing timer handle (and, the timers being
  kept as \<open>timers_ok\<close> says, without a pending stop-typing timer), without
  subscribers and with an empty cache. With a signed-in user an
  \<^verbatim>\<open>initializeConnection\<close> after it suspends in state connecting, its continuation
  opens a socket with the standard listeners, and the transport's \<^verbatim>\<open>connect\<close> makes
  the state connected.
\<close>

theorem C9_close_idempotent:
  "close P (close P s) = close P s \<and>
   connectionState (close P s) = Disconnected \<and> socket (close P s) = None \<and>
   typingTimeoutId (close P s) = None \<and> messageCallbacks (close P s) = [] \<and>
   messageSet (close P s) = {} \<and>
   (timers_ok s \<longrightarrow> typing_timers (close P s) = []) \<and>
   (currentUser s \<noteq> None \<longrightarrow>
      initializeConnection P (close P s) =
        (Suspended, (close P s)\<lparr>connectionState := Connecting,
                                 awaitingToken := Suc (awaitingToken s)\<rparr>) \<and>
      initializeConnection_resume P None (snd (initializeConnection P (close P s))) =
        (Normal, (close P s)\<lparr>connectionState := Connecting,
                   socket := Some \<lparr>connected = False, handlers = standard_handlers\<rparr>\<rparr>) \<and>
      connectionState (snd (receive P EvConnect
         (snd (initializeConnection_resume P None (snd (initializeConnection P (close P s)))))))
        = Connected)"
proof (intro conjI impI)
  show "close P (close P s) = close P s" by (rule close_again)
  show "connectionState (close P s) = Disconnected" "socket (close P s) = None"
    "typingTimeoutId (close P s) = None" "messageCallbacks (close P s) = []"
    "messageSet (close P s) = {}"
    by (simp_all add: close_fields)
next
  assume "timers_ok s" then show "typing_timers (close P s) = []" by (rule close_typing_timers)
next
  assume u: "currentUser s \<noteq> None"
  let ?c = "close P s"
  have nc: "\<not> socket_connected ?c" by (simp add: socket_connected_def close_fields)
  have u': "currentUser ?c \<noteq> None" using u by (simp add: close_fields)
  show i: "initializeConnection P ?c =
        (Suspended, ?c\<lparr>connectionState := Connecting, awaitingToken := Suc (awaitingToken s)\<rparr>)"
    by (simp add: initializeConnection_suspends [OF u' nc] close_fields)
  show r: "initializeConnection_resume P None (snd (initializeConnection P ?c)) =
        (Normal, ?c\<lparr>connectionState := Connecting,
                   socket := Some \<lparr>connected = False, handlers = standard_handlers\<rparr>\<rparr>)"
    using u' by (simp add: i initializeConnection_resume_success close_fields)
  have "wired (?c\<lparr>connectionState := Connecting,
                   socket := Some \<lparr>connected = False, handlers = standard_handlers\<rparr>\<rparr>)"
    by (simp add: wired_def standard_handlers_def)
  then show "connectionState (snd (receive P EvConnect
         (snd (initializeConnection_resume P None (snd (initializeConnection P ?c))))))
        = Connected"
    unfolding r by (simp add: receive_connect_fields)
qed

text \<open>Closing the service with a pending stop-typing timer, twice.\<close>

theorem C9_witness:
  "timers_ok typingPending \<and> currentUser typingPending \<noteq> None \<and>
   typing_timers typingPending \<noteq> [] \<and>
   close P0 (close P0 typingPending) = close P0 typingPending \<and>
   close P0 typingPending =
     typingPending\<lparr>typingTimeoutId := None, timers := [], socket := None, messageCallbacks := [],
       messageSet := {}, connectionState := Disconnected, effects := [SocketClosed]\<rparr> \<and>
   typing_timers (close P0 typingPending) = [] \<and>
   fst (initializeConnection P0 (close P0 typingPending)) = Suspended"
proof -
  have a: "timers_ok typingPending" "currentUser typingPending \<noteq> None"
    "typing_timers typingPending \<noteq> []"
    by (simp_all add: typingPending_def demo_def timers_ok_def typing_timers_def)
  have b: "close P0 typingPending =
     typingPending\<lparr>typingTimeoutId := None, timers := [], socket := None, messageCallbacks := [],
       messageSet := {}, connectionState := Disconnected, effects := [SocketClosed]\<rparr>"
    by (simp add: typingPending_def demo_def close_def clearTimeout_def notifyConnectionStatus_def
        fanout_def Let_def)
  from C9_close_idempotent [of P0 typingPending] a
  have "close P0 (close P0 typingPending) = close P0 typingPending"
    and "typing_timers (close P0 typingPending) = []"
    and "fst (initializeConnection P0 (close P0 typingPending)) = Suspended"
    by simp_all
  with a b show ?thesis by simp
qed

subsection \<open>C4 and C10: the cache, reconnecting and sending\<close>

text \<open>
  C4. The \<^verbatim>\<open>connect\<close> event empties the cache. An event of another sender, delivered
  on a routed channel, is recorded, and delivered again at once it notifies nobody; after
  the socket's \<^verbatim>\<open>disconnect\<close> and \<^verbatim>\<open>connect\<close> the same event is handed to every
  subscriber again.
\<close>

theorem C4_connect_clears_cache:
  assumes "wired s" and "routed ch" and "senderId e \<noteq> currentUser s"
  shows "messageSet (snd (receive P EvConnect s)) = {} \<and>
         generateMessageId P e \<in> messageSet (snd (receive P (EvData ch e) s)) \<and>
         effects (snd (receive P (EvData ch e) (snd (receive P (EvData ch e) s)))) =
           effects (snd (receive P (EvData ch e) s)) \<and>
         effects (snd (receive P (EvData ch e)
                   (snd (receive P EvConnect
                     (snd (receive P EvDisconnect (snd (receive P (EvData ch e) s)))))))) =
           effects (snd (receive P EvConnect
                     (snd (receive P EvDisconnect (snd (receive P (EvData ch e) s)))))) @
           map (\<lambda>c. Notify c e) (messageCallbacks s)"
proof -
  let ?s1 = "snd (receive P (EvData ch e) s)"
  let ?s2 = "snd (receive P EvDisconnect ?s1)"
  let ?s3 = "snd (receive P EvConnect ?s2)"
  note f1 = receive_routed_fields [OF assms(1,2), of P e]
  have w1: "wired ?s1" by (rule f1)
  note f2 = receive_disconnect_fields [OF w1, of P]
  have w2: "wired ?s2" by (rule f2)
  note f3 = receive_connect_fields [OF w2, of P]
  have w3: "wired ?s3" by (rule f3)
  note f4 = receive_routed_fields [OF w3 assms(2), of P e]
  note f1' = receive_routed_fields [OF w1 assms(2), of P e]
  have u3: "currentUser ?s3 = currentUser s" by (simp add: f3 f2 f1)
  have c3: "messageCallbacks ?s3 = messageCallbacks s" by (simp add: f3 f2 f1)
  have k1: "generateMessageId P e \<in> messageSet ?s1"
    using assms(3) by (simp add: f1 handleMessage_def fanout_def Let_def)
  have "effects (handleMessage P e ?s1) = effects ?s1"
    using k1 by (simp add: handleMessage_def Let_def)
  then have dup: "effects (snd (receive P (EvData ch e) ?s1)) = effects ?s1"
    by (simp add: f1')
  have "effects (handleMessage P e ?s3) = effects ?s3 @ map (\<lambda>c. Notify c e) (messageCallbacks s)"
    using assms(3) by (simp add: handleMessage_def fanout_def Let_def u3 c3 f3)
  then have again: "effects (snd (receive P (EvData ch e) ?s3)) =
      effects ?s3 @ map (\<lambda>c. Notify c e) (messageCallbacks s)"
    by (simp add: f4)
  show ?thesis
    using receive_connect_fields(1) [OF assms(1), of P] k1 dup again by simp
qed

text \<open>The message of \<^verbatim>\<open>B\<close>: once, not twice, and again after the reconnect.\<close>

theorem C4_witness:
  "wired demo \<and> routed Message \<and> senderId msgB \<noteq> currentUser demo \<and>
   notified 1 (effects (snd (receive P0 (EvData Message msgB) demo))) = [msgB] \<and>
   notified 1 (effects (snd (receive P0 (EvData Message msgB)
      (snd (receive P0 (EvData Message msgB) demo))))) = [msgB] \<and>
   (let reconnected = snd (receive P0 EvConnect (snd (receive P0 EvDisconnect
                        (snd (receive P0 (EvData Message msgB) demo)))))
    in notified 1 (effects (snd (receive P0 (EvData Message msgB) reconnected))) =
       notified 1 (effects reconnected) @ [msgB])"
proof -
  have a: "wired demo" "routed Message" "senderId msgB \<noteq> currentUser demo"
    by (simp_all add: demo_def msgB_def blank_def wired_def standard_handlers_def offer_entry_def)
  have b: "effects (snd (receive P0 (EvData Message msgB) demo)) = [Notify 1 msgB, Notify 2 msgB]"
    by (simp add: demo_def msgB_def blank_def receive_def listeners_on_def standard_handlers_def
        handleMessage_def fanout_def Let_def)
  have c: "messageCallbacks demo = [1, 2]" by (simp add: demo_def)
  from C4_connect_clears_cache [OF a, of P0] show ?thesis
    by (simp add: a b c Let_def notified_append)
qed

lemma sendMessage_recorded:
  assumes "socket_connected s" and "type m \<noteq> Typing"
  shows "messageSet (snd (sendMessage P m s)) = insert (generateMessageId P m) (messageSet s)"
    and "socket (snd (sendMessage P m s)) = socket s"
    and "promises (snd (sendMessage P m s)) = promises s"
    and "currentUser (snd (sendMessage P m s)) = currentUser s"
    and "messageCallbacks (snd (sendMessage P m s)) = messageCallbacks s"
proof -
  have "messageSet (snd (sendMessage P m s)) = insert (generateMessageId P m) (messageSet s) \<and>
        socket (snd (sendMessage P m s)) = socket s \<and>
        promises (snd (sendMessage P m s)) = promises s \<and>
        currentUser (snd (sendMessage P m s)) = currentUser s \<and>
        messageCallbacks (snd (sendMessage P m s)) = messageCallbacks s"
  proof (cases "generateMessageId P m \<in> messageSet s")
    case True
    then show ?thesis using assms by (auto simp: sendMessage_duplicate)
  next
    case False
    then show ?thesis
      using sendMessage_new [OF assms False] by (cases "emitFault s") simp_all
  qed
  then show "messageSet (snd (sendMessage P m s)) = insert (generateMessageId P m) (messageSet s)"
    and "socket (snd (sendMessage P m s)) = socket s"
    and "promises (snd (sendMessage P m s)) = promises s"
    and "currentUser (snd (sendMessage P m s)) = currentUser s"
    and "messageCallbacks (snd (sendMessage P m s)) = messageCallbacks s"
    by simp_all
qed



subsection \<open>Timers, and C6: the stop-typing timer\<close>

lemma timer_frame_refl [simp]: "timer_frame s s"
  by (simp add: timer_frame_def)

lemma timer_frame_trans: "timer_frame s t \<Longrightarrow> timer_frame t u \<Longrightarrow> timer_frame s u"
  by (simp add: timer_frame_def)

lemma timers_ok_frame: "timer_frame s s' \<Longrightarrow> timers_ok s' = timers_ok s"
  by (simp add: timer_frame_def timers_ok_def typing_timers_def split: option.splits)

lemma typing_timers_frame: "timer_frame s s' \<Longrightarrow> typing_timers s' = typing_timers s"
  by (simp add: timer_frame_def typing_timers_def)

lemma fanout_timer_frame: "timer_frame s (fanout m s)"
  by (simp add: timer_frame_def fanout_def auto_cleared_append auto_cleared_fanout)

lemma notify_timer_frame: "timer_frame s (notifyConnectionStatus P s)"
  by (simp add: notifyConnectionStatus_def fanout_timer_frame)

lemma socket_emit_timer_frame: "timer_frame s (snd (socket_emit ch m s))"
  by (simp add: timer_frame_def socket_emit_def auto_cleared_append split: option.splits)

lemma initializeConnection_timer_frame: "timer_frame s (snd (initializeConnection P s))"
  by (simp add: timer_frame_def initializeConnection_def notifyConnectionStatus_def fanout_def
      Let_def auto_cleared_append auto_cleared_fanout split: option.splits)

lemma initializeConnection_resume_timer_frame:
  "timer_frame s (snd (initializeConnection_resume P f s))"
  by (simp add: timer_frame_def initializeConnection_resume_def initializeConnection_catch_def
      notifyConnectionStatus_def fanout_def Let_def auto_cleared_append auto_cleared_fanout
      split: option.splits)

lemma sendMessage_timer_frame: "timer_frame s (snd (sendMessage P m s))"
proof (cases "socket_connected s")
  case False
  then show ?thesis
    by (simp add: sendMessage_disconnected initializeConnection_timer_frame)
next
  case True
  show ?thesis
  proof (cases "type m = Typing")
    case True
    with \<open>socket_connected s\<close> show ?thesis
      by (simp add: sendMessage_typing timer_frame_def auto_cleared_append split: option.splits)
  next
    case False
    show ?thesis
    proof (cases "generateMessageId P m \<in> messageSet s")
      case True
      with False \<open>socket_connected s\<close> show ?thesis by (simp add: sendMessage_duplicate)
    next
      case new: False
      show ?thesis
        by (simp add: sendMessage_new [OF \<open>socket_connected s\<close> False new] timer_frame_def
            auto_cleared_append split: option.splits)
    qed
  qed
qed

lemma sendTypingIndicator_eq:
  "sendTypingIndicator P r b s =
     (Normal,
      let s1 = (case typingTimeoutId s of
                  None \<Rightarrow> s
                | Some h \<Rightarrow> (clearTimeout h s)\<lparr>typingTimeoutId := None\<rparr>);
          s2 = snd (sendMessage P
                 ((blank Typing)\<lparr>senderId := currentUser s1, receiverId := Some r,
                    isTyping := Some b, timestamp := Some (toISOString P (now s1))\<rparr>) s1)
      in if b then (snd (setTimeout 3000 (TypingAutoClear r) s2))\<lparr>typingTimeoutId := Some (nextTimer s2)\<rparr>
         else s2)"
proof -
  define s1 where "s1 = (case typingTimeoutId s of
                  None \<Rightarrow> s
                | Some h \<Rightarrow> (clearTimeout h s)\<lparr>typingTimeoutId := None\<rparr>)"
  define msg where "msg = (blank Typing)\<lparr>senderId := currentUser s1, receiverId := Some r,
                    isTyping := Some b, timestamp := Some (toISOString P (now s1))\<rparr>"
  have "sendMessage P msg s1 = (Normal, snd (sendMessage P msg s1))"
    using sendMessage_returns [of P msg s1] by (cases "sendMessage P msg s1") simp
  then obtain s2 where r: "sendMessage P msg s1 = (Normal, s2)" ..
  have "sendTypingIndicator P r b s =
        (Normal, if b then (snd (setTimeout 3000 (TypingAutoClear r) s2))\<lparr>typingTimeoutId := Some (nextTimer s2)\<rparr>
                 else s2)"
    unfolding sendTypingIndicator_def Let_def s1_def [symmetric]
    unfolding msg_def [symmetric] r
    by (simp add: setTimeout_def)
  then show ?thesis
    unfolding Let_def s1_def [symmetric]
    unfolding msg_def [symmetric] r by simp
qed

lemma clear_typing_timers:
  assumes "timers_ok s"
  shows "typing_timers (case typingTimeoutId s of
                  None \<Rightarrow> s
                | Some h \<Rightarrow> (clearTimeout h s)\<lparr>typingTimeoutId := None\<rparr>) = []"
proof -
  from assms have all: "\<forall>x \<in> set (typing_timers s). typingTimeoutId s = Some (handle x)"
    by (simp add: timers_ok_def list_all_iff)
  show ?thesis
  proof (cases "typingTimeoutId s")
    case None
    with all have "typing_timers s = []" by (cases "typing_timers s") auto
    with None show ?thesis by simp
  next
    case (Some h)
    with all have "\<forall>x \<in> set (typing_timers s). handle x = h" by simp
    then have "filter (\<lambda>x. handle x \<noteq> h) (typing_timers s) = []"
      by (simp add: filter_empty_conv)
    then have "typing_timers (clearTimeout h s) = []"
      by (simp add: typing_timers_def clearTimeout_def conj_commute)
    with Some show ?thesis by (simp add: typing_timers_def)
  qed
qed

lemma clear_timers_ok:
  assumes "timers_ok s"
  shows "timers_ok (case typingTimeoutId s of
                  None \<Rightarrow> s
                | Some h \<Rightarrow> (clearTimeout h s)\<lparr>typingTimeoutId := None\<rparr>)"
    (is "timers_ok ?c")
proof -
  have t: "typing_timers ?c = []" using assms by (rule clear_typing_timers)
  have "distinct (map handle (timers ?c))" "list_all (\<lambda>x. handle x < nextTimer ?c) (timers ?c)"
    "typingTimeoutId ?c = None"
    using assms
    by (auto simp: timers_ok_def clearTimeout_def distinct_map_filter list_all_iff
        split: option.splits)
  with t show ?thesis by (simp add: timers_ok_def)
qed

lemma filter_single:
  "distinct (map f xs) \<Longrightarrow> \<forall>y \<in> set (filter Q xs). f y = h \<Longrightarrow> x \<in> set xs \<Longrightarrow> Q x \<Longrightarrow>
   filter Q xs = [x]"
proof (induction xs)
  case Nil
  then show ?case by simp
next
  case (Cons a xs)
  show ?case
  proof (cases "Q a")
    case True
    with Cons.prems(2) have fa: "f a = h" by simp
    have "filter Q xs = []"
    proof (rule ccontr)
      assume "filter Q xs \<noteq> []"
      then obtain y where y: "y \<in> set xs" "Q y" by (auto simp: filter_empty_conv)
      with Cons.prems(2) have "f y = h" by simp
      with fa y(1) Cons.prems(1) show False by (auto simp: image_iff)
    qed
    moreover have "x = a"
    proof (rule ccontr)
      assume "x \<noteq> a"
      with Cons.prems(3) have "x \<in> set xs" by simp
      with Cons.prems(4) \<open>filter Q xs = []\<close> show False by (auto simp: filter_empty_conv)
    qed
    ultimately show ?thesis using True by simp
  next
    case False
    with Cons.prems have "x \<in> set xs" by auto
    with Cons False show ?thesis by simp
  qed
qed

lemma typing_timer_unique:
  assumes "timers_ok s" and "x \<in> set (timers s)" and "is_typing (action x)"
  shows "typing_timers s = [x]" and "typingTimeoutId s = Some (handle x)"
proof -
  from assms(1) have d: "distinct (map handle (timers s))"
    and a: "\<forall>y \<in> set (typing_timers s). typingTimeoutId s = Some (handle y)"
    by (simp_all add: timers_ok_def list_all_iff)
  from assms(2,3) have "x \<in> set (typing_timers s)" by (simp add: typing_timers_def)
  with a show h: "typingTimeoutId s = Some (handle x)" by simp
  with a have "\<forall>y \<in> set (filter (\<lambda>x. is_typing (action x)) (timers s)). handle y = handle x"
    by (simp add: typing_timers_def)
  from filter_single [OF d this assms(2,3)] show "typing_timers s = [x]"
    by (simp add: typing_timers_def)
qed

lemma typing_timers_at_most_one: "timers_ok s \<Longrightarrow> length (typing_timers s) \<le> 1"
proof (cases "typing_timers s")
  case Nil
  then show ?thesis by simp
next
  case (Cons x xs)
  assume ok: "timers_ok s"
  from Cons have "x \<in> set (typing_timers s)" by simp
  then have "x \<in> set (timers s)" "is_typing (action x)"
    by (simp_all add: typing_timers_def)
  from typing_timer_unique(1) [OF ok this] show ?thesis by simp
qed

lemma cleared_timers:
  assumes "timers_ok s"
  shows "timers (case typingTimeoutId s of
                  None \<Rightarrow> s
                | Some h \<Rightarrow> (clearTimeout h s)\<lparr>typingTimeoutId := None\<rparr>) =
         filter (\<lambda>x. \<not> is_typing (action x)) (timers s)"
proof (cases "typingTimeoutId s")
  case None
  have "typing_timers s = []" using clear_typing_timers [OF assms] None by simp
  then have "\<forall>x \<in> set (timers s). \<not> is_typing (action x)"
    unfolding typing_timers_def filter_empty_conv .
  then have "filter (\<lambda>x. \<not> is_typing (action x)) (timers s) = timers s"
    unfolding filter_id_conv .
  then show ?thesis unfolding None by simp
next
  case (Some h)
  from assms have a0: "list_all (\<lambda>x. typingTimeoutId s = Some (handle x)) (typing_timers s)"
    and b0: "case typingTimeoutId s of None \<Rightarrow> True
      | Some h \<Rightarrow> h < nextTimer s \<and>
          list_all (\<lambda>x. handle x = h \<longrightarrow> is_typing (action x)) (timers s)"
    unfolding timers_ok_def by blast+
  from a0 have a: "\<And>y. y \<in> set (timers s) \<Longrightarrow> is_typing (action y) \<Longrightarrow> handle y = h"
    unfolding Some typing_timers_def list_all_iff by simp
  from b0 have b: "\<And>y. y \<in> set (timers s) \<Longrightarrow> handle y = h \<Longrightarrow> is_typing (action y)"
    unfolding Some list_all_iff by simp
  have "filter (\<lambda>t. handle t \<noteq> h) (timers s) = filter (\<lambda>x. \<not> is_typing (action x)) (timers s)"
  proof (rule filter_cong [OF refl])
    fix x assume "x \<in> set (timers s)"
    with a b show "(handle x \<noteq> h) = (\<not> is_typing (action x))" by blast
  qed
  then show ?thesis unfolding Some by (simp add: clearTimeout_def)
qed

lemma sendTypingIndicator_timers:
  assumes "timers_ok s"
  shows "timers (snd (sendTypingIndicator P r b s)) =
           filter (\<lambda>x. \<not> is_typing (action x)) (timers s) @
           (if b then [\<lparr>handle = nextTimer s, due = now s + 3000, action = TypingAutoClear r\<rparr>]
            else [])"
    and "typingTimeoutId (snd (sendTypingIndicator P r b s)) = (if b then Some (nextTimer s) else None)"
    and "nextTimer (snd (sendTypingIndicator P r b s)) = (if b then Suc (nextTimer s) else nextTimer s)"
    and "now (snd (sendTypingIndicator P r b s)) = now s"
    and "auto_cleared (effects (snd (sendTypingIndicator P r b s))) = auto_cleared (effects s)"
proof -
  define s1 where "s1 = (case typingTimeoutId s of
                  None \<Rightarrow> s
                | Some h \<Rightarrow> (clearTimeout h s)\<lparr>typingTimeoutId := None\<rparr>)"
  define s2 where "s2 = snd (sendMessage P
                 ((blank Typing)\<lparr>senderId := currentUser s1, receiverId := Some r,
                    isTyping := Some b, timestamp := Some (toISOString P (now s1))\<rparr>) s1)"
  have eq: "snd (sendTypingIndicator P r b s) =
     (if b then (snd (setTimeout 3000 (TypingAutoClear r) s2))\<lparr>typingTimeoutId := Some (nextTimer s2)\<rparr>
      else s2)"
    by (simp add: sendTypingIndicator_eq Let_def s1_def s2_def)
  have t1: "timers s1 = filter (\<lambda>x. \<not> is_typing (action x)) (timers s)"
    unfolding s1_def using assms by (rule cleared_timers)
  have f1: "typingTimeoutId s1 = None" "nextTimer s1 = nextTimer s" "now s1 = now s"
    "effects s1 = effects s"
    by (simp_all add: s1_def clearTimeout_def split: option.splits)
  have "timer_frame s1 s2" unfolding s2_def by (rule sendMessage_timer_frame)
  then have f2: "timers s2 = timers s1" "nextTimer s2 = nextTimer s1" "now s2 = now s1"
    "typingTimeoutId s2 = typingTimeoutId s1"
    "auto_cleared (effects s2) = auto_cleared (effects s1)"
    by (simp_all add: timer_frame_def)
  show "timers (snd (sendTypingIndicator P r b s)) =
           filter (\<lambda>x. \<not> is_typing (action x)) (timers s) @
           (if b then [\<lparr>handle = nextTimer s, due = now s + 3000, action = TypingAutoClear r\<rparr>]
            else [])"
    and "typingTimeoutId (snd (sendTypingIndicator P r b s)) = (if b then Some (nextTimer s) else None)"
    and "nextTimer (snd (sendTypingIndicator P r b s)) = (if b then Suc (nextTimer s) else nextTimer s)"
    and "now (snd (sendTypingIndicator P r b s)) = now s"
    and "auto_cleared (effects (snd (sendTypingIndicator P r b s))) = auto_cleared (effects s)"
    by (simp_all add: eq setTimeout_def f2 f1 t1)
qed

lemma sendTypingIndicator_ok:
  assumes "timers_ok s"
  shows "timers_ok (snd (sendTypingIndicator P r b s))"
    and "typing_timers (snd (sendTypingIndicator P r b s)) =
           (if b then [\<lparr>handle = nextTimer s, due = now s + 3000, action = TypingAutoClear r\<rparr>]
            else [])"
proof -
  let ?s = "snd (sendTypingIndicator P r b s)"
  let ?new = "\<lparr>handle = nextTimer s, due = now s + 3000, action = TypingAutoClear r\<rparr>"
  let ?old = "filter (\<lambda>x. \<not> is_typing (action x)) (timers s)"
  note f = sendTypingIndicator_timers [OF assms, of P r b]
  from assms have d: "distinct (map handle (timers s))"
    and l: "\<forall>x \<in> set (timers s). handle x < nextTimer s"
    by (simp_all add: timers_ok_def list_all_iff)
  show t: "typing_timers ?s = (if b then [?new] else [])"
    by (simp add: typing_timers_def f)
  have d': "distinct (map handle ?old)"
    using d by (rule distinct_map_filter)
  have fresh: "nextTimer s \<notin> handle ` set ?old" using l by auto
  have c1: "distinct (map handle (timers ?s))"
    using d' fresh by (simp add: f)
  have c2: "list_all (\<lambda>x. handle x < nextTimer ?s) (timers ?s)"
    using l by (auto simp: f list_all_iff)
  have c3: "list_all (\<lambda>x. typingTimeoutId ?s = Some (handle x)) (typing_timers ?s)"
    by (simp add: t f)
  have c4: "case typingTimeoutId ?s of
        None \<Rightarrow> True
      | Some h \<Rightarrow> h < nextTimer ?s \<and>
          list_all (\<lambda>x. handle x = h \<longrightarrow> is_typing (action x)) (timers ?s)"
  proof (cases b)
    case True
    then have b: "b = True" by simp
    note g = sendTypingIndicator_timers [OF assms, of P r True, simplified]
    show ?thesis unfolding b using l by (auto simp: g list_all_iff)
  next
    case False
    then have b: "b = False" by simp
    note g = sendTypingIndicator_timers [OF assms, of P r False, simplified]
    show ?thesis unfolding b by (simp add: g)
  qed
  from c1 c2 c3 c4 show "timers_ok ?s"
    unfolding timers_ok_def by blast
qed

lemma timers_ok_filter:
  assumes "timers_ok s"
  shows "timers_ok (s\<lparr>timers := filter Q (timers s), now := n, effects := es\<rparr>)"
proof -
  from assms have "distinct (map handle (filter Q (timers s)))"
    by (simp add: timers_ok_def distinct_map_filter)
  moreover have "filter (\<lambda>x. is_typing (action x)) (filter Q (timers s)) =
                 filter Q (filter (\<lambda>x. is_typing (action x)) (timers s))"
    by (simp add: conj_commute)
  ultimately show ?thesis
    using assms
    by (auto simp: timers_ok_def typing_timers_def list_all_iff split: option.splits)
qed

lemma resolve_timer_frame: "timer_frame s (resolve p v s)"
  by (simp add: timer_frame_def resolve_def)

lemma socket_off_timer_frame: "timer_frame s (socket_off ch l s)"
  by (simp add: timer_frame_def socket_off_def split: option.splits)

lemma socket_on_timer_frame: "timer_frame s (socket_on ch l s)"
  by (simp add: timer_frame_def socket_on_def split: option.splits)

lemma next_due_Some:
  assumes "next_due t s = Some x"
  shows "x \<in> set (timers s)" and "due x \<le> t"
proof -
  have mem: "earliest y ys \<in> set (y # ys)" for y :: Timer and ys
    by (induction ys arbitrary: y) auto
  from assms obtain y ys where f: "filter (\<lambda>x. due x \<le> t) (timers s) = y # ys"
    and x: "x = earliest y ys"
    by (auto simp: next_due_def split: list.splits)
  have "x \<in> set (filter (\<lambda>x. due x \<le> t) (timers s))"
    unfolding f x by (rule mem)
  then show "x \<in> set (timers s)" and "due x \<le> t" by simp_all
qed

lemma next_due_None: "next_due t s = None \<Longrightarrow> x \<in> set (timers s) \<Longrightarrow> t < due x"
  by (auto simp: next_due_def filter_empty_conv split: list.splits)

lemma filter_handle_typing:
  assumes "timers_ok s" and "x \<in> set (timers s)"
  shows "typing_timers (s\<lparr>timers := filter (\<lambda>y. handle y \<noteq> handle x) (timers s), now := n,
                          effects := es\<rparr>) =
         (if is_typing (action x) then [] else typing_timers s)"
proof (cases "is_typing (action x)")
  case True
  from typing_timer_unique(1) [OF assms True] have "typing_timers s = [x]" .
  then have "filter (\<lambda>y. handle y \<noteq> handle x) (typing_timers s) = []" by simp
  then show ?thesis using True by (simp add: typing_timers_def conj_commute)
next
  case False
  have "filter (\<lambda>y. handle y \<noteq> handle x) (typing_timers s) = typing_timers s"
  proof (simp only: filter_id_conv, intro ballI)
    fix y assume y: "y \<in> set (typing_timers s)"
    then have "y \<in> set (timers s)" "is_typing (action y)" by (simp_all add: typing_timers_def)
    with False have "y \<noteq> x" by auto
    moreover from assms(1) have "inj_on handle (set (timers s))"
      by (simp add: timers_ok_def distinct_map)
    ultimately show "handle y \<noteq> handle x"
      using \<open>y \<in> set (timers s)\<close> assms(2) by (auto dest: inj_onD)
  qed
  then show ?thesis using False by (simp add: typing_timers_def conj_commute)
qed

lemma fire_facts:
  assumes "timers_ok s" and "x \<in> set (timers s)"
  shows "timers_ok (fire P x s)"
    and "typing_timers (fire P x s) = (if is_typing (action x) then [] else typing_timers s)"
    and "auto_cleared (effects (fire P x s)) =
         auto_cleared (effects s) @ auto_cleared [TimerFired (handle x) (action x)]"
    and "nextTimer (fire P x s) = nextTimer s"
    and "now (fire P x s) = max (now s) (due x)"
proof -
  let ?s0 = "s\<lparr>timers := filter (\<lambda>y. handle y \<noteq> handle x) (timers s),
                now := max (now s) (due x),
                effects := effects s @ [TimerFired (handle x) (action x)]\<rparr>"
  have ok0: "timers_ok ?s0" using assms(1) by (rule timers_ok_filter)
  have t0: "typing_timers ?s0 = (if is_typing (action x) then [] else typing_timers s)"
    using assms by (rule filter_handle_typing)
  have "timers_ok (fire P x s) \<and>
        typing_timers (fire P x s) = (if is_typing (action x) then [] else typing_timers s) \<and>
        auto_cleared (effects (fire P x s)) =
          auto_cleared (effects s) @ auto_cleared [TimerFired (handle x) (action x)] \<and>
        nextTimer (fire P x s) = nextTimer s \<and> now (fire P x s) = max (now s) (due x)"
  proof (cases "action x")
    case (TypingAutoClear r)
    have f: "fire P x s = snd (sendTypingIndicator P r False ?s0)"
      by (simp add: fire_def run_timer_def TypingAutoClear)
    note g = sendTypingIndicator_timers [OF ok0, of P r False]
      sendTypingIndicator_ok [OF ok0, of P r False]
    show ?thesis
      unfolding f using g by (simp add: TypingAutoClear auto_cleared_append)
  next
    case (OfferTimeout p sid)
    have f: "fire P x s = resolve p None (socket_off (ChData VoiceCall) (HandleOffer p sid) ?s0)"
      by (simp add: fire_def run_timer_def OfferTimeout)
    have fr: "timer_frame ?s0 (fire P x s)"
      unfolding f by (rule timer_frame_trans [OF socket_off_timer_frame resolve_timer_frame])
    have "timers_ok (fire P x s)" using ok0 by (simp add: timers_ok_frame [OF fr])
    moreover have "typing_timers (fire P x s) = typing_timers ?s0"
      by (rule typing_timers_frame [OF fr])
    ultimately show ?thesis
      using fr t0 by (simp add: timer_frame_def OfferTimeout auto_cleared_append)
  qed
  then show "timers_ok (fire P x s)"
    and "typing_timers (fire P x s) = (if is_typing (action x) then [] else typing_timers s)"
    and "auto_cleared (effects (fire P x s)) =
         auto_cleared (effects s) @ auto_cleared [TimerFired (handle x) (action x)]"
    and "nextTimer (fire P x s) = nextTimer s"
    and "now (fire P x s) = max (now s) (due x)"
    by blast+
qed

text \<open>
  \<open>advance\<close> is unfolded by hand: as a rewrite rule its equation would not terminate.
\<close>

declare advance.simps [simp del]

lemma advance_typing:
  "timers_ok s \<Longrightarrow>
   timers_ok (advance P t s) \<and>
   typing_timers (advance P t s) = filter (\<lambda>x. t < due x) (typing_timers s) \<and>
   auto_cleared (effects (advance P t s)) =
     auto_cleared (effects s) @
     auto_cleared (map (\<lambda>x. TimerFired (handle x) (action x))
                     (filter (\<lambda>x. due x \<le> t) (typing_timers s))) \<and>
   nextTimer (advance P t s) = nextTimer s \<and> now (advance P t s) = max (now s) t"
proof (induction P t s rule: advance.induct)
  case (1 P t s)
  show ?case
  proof (cases "next_due t s")
    case None
    have late: "\<forall>x \<in> set (typing_timers s). t < due x"
      using next_due_None [OF None] by (simp add: typing_timers_def)
    then have "filter (\<lambda>x. t < due x) (typing_timers s) = typing_timers s"
      by (simp add: filter_id_conv)
    moreover from late have "filter (\<lambda>x. due x \<le> t) (typing_timers s) = []"
      by (auto simp: filter_empty_conv)
    moreover have "advance P t s = s\<lparr>now := max (now s) t\<rparr>"
      by (subst advance.simps) (simp add: None)
    moreover have "timers_ok (s\<lparr>now := max (now s) t\<rparr>)"
      using "1.prems" by (simp add: timers_ok_def typing_timers_def split: option.splits)
    ultimately show ?thesis by (simp add: typing_timers_def)
  next
    case (Some x)
    note x = next_due_Some [OF Some]
    note f = fire_facts [OF "1.prems" x(1), of P]
    note ih = "1.IH" [OF Some f(1)]
    have a: "advance P t s = advance P t (fire P x s)"
      by (subst advance.simps) (simp add: Some)
    show ?thesis
    proof (cases "is_typing (action x)")
      case True
      from typing_timer_unique(1) [OF "1.prems" x(1) True] have u: "typing_timers s = [x]" .
      show ?thesis
        unfolding a using ih x(2) by (simp add: f u True)
    next
      case False
      then have "auto_cleared [TimerFired (handle x) (action x)] = []"
        by (cases "action x") simp_all
      then show ?thesis
        unfolding a using ih x(2) by (simp add: f False)
    qed
  qed
qed

lemma onConnect_timer_frame: "timer_frame s (snd (onConnect P s))"
  by (simp add: timer_frame_def onConnect_def notifyConnectionStatus_def fanout_def
      socket_emit_def Let_def auto_cleared_append auto_cleared_fanout split: option.splits)

lemma onDisconnect_timer_frame: "timer_frame s (onDisconnect P s)"
  by (simp add: timer_frame_def onDisconnect_def notifyConnectionStatus_def fanout_def
      auto_cleared_append auto_cleared_fanout)

lemma onConnectError_timer_frame: "timer_frame s (onConnectError P s)"
  by (simp add: timer_frame_def onConnectError_def notifyConnectionStatus_def fanout_def
      auto_cleared_append auto_cleared_fanout)

lemma handleMessage_timer_frame: "timer_frame s (handleMessage P m s)"
  by (simp add: timer_frame_def handleMessage_def fanout_def Let_def
      auto_cleared_append auto_cleared_fanout)

lemma onTyping_timer_frame: "timer_frame s (onTyping m s)"
  by (simp add: timer_frame_def onTyping_def fanout_def auto_cleared_append auto_cleared_fanout)

lemma handleOffer_timer_frame: "timer_frame s (handleOffer p sid m s)"
  by (simp add: timer_frame_def handleOffer_def resolve_def socket_off_def split: option.splits)

lemma run_listener_timer_frame: "timer_frame s (snd (run_listener P l ev s))"
  by (cases "(P, l, ev, s)" rule: run_listener.cases)
    (simp_all add: onConnect_timer_frame onDisconnect_timer_frame onConnectError_timer_frame
      handleMessage_timer_frame onTyping_timer_frame handleOffer_timer_frame)

lemma run_listeners_timer_frame: "timer_frame s (snd (run_listeners P ls ev s))"
proof (induction ls arbitrary: s)
  case Nil
  show ?case by simp
next
  case (Cons l ls)
  obtain c s1 where r: "run_listener P l ev s = (c, s1)" by (cases "run_listener P l ev s")
  have f1: "timer_frame s s1" using run_listener_timer_frame [of s P l ev] by (simp add: r)
  show ?case
  proof (cases c)
    case Normal
    with r f1 Cons.IH [of s1] show ?thesis by (auto intro: timer_frame_trans)
  next
    case (Throw e)
    with r f1 show ?thesis by simp
  qed
qed

lemma receive_timer_frame: "timer_frame s (snd (receive P ev s))"
proof (cases "socket s")
  case None
  then show ?thesis by (simp add: receive_def)
next
  case (Some sk)
  have "timer_frame s (s\<lparr>socket := x\<rparr>)" for x by (simp add: timer_frame_def)
  then show ?thesis
    unfolding receive_def Some Let_def option.case
    by (rule timer_frame_trans [OF _ run_listeners_timer_frame])
qed

lemma getLastOffer_timers_ok:
  assumes "timers_ok s"
  shows "timers_ok (snd (getLastOffer sid s))"
    and "typing_timers (snd (getLastOffer sid s)) = typing_timers s"
    and "auto_cleared (effects (snd (getLastOffer sid s))) = auto_cleared (effects s)"
proof -
  from assms have l: "\<forall>x \<in> set (timers s). handle x < nextTimer s"
    by (simp add: timers_ok_def list_all_iff)
  then have "nextTimer s \<notin> handle ` set (timers s)" by auto
  with assms show "timers_ok (snd (getLastOffer sid s))"
    by (auto simp: getLastOffer_def Let_def resolve_def socket_on_def setTimeout_def
        timers_ok_def typing_timers_def list_all_iff split: option.splits)
  show "typing_timers (snd (getLastOffer sid s)) = typing_timers s"
    and "auto_cleared (effects (snd (getLastOffer sid s))) = auto_cleared (effects s)"
    by (simp_all add: getLastOffer_def Let_def resolve_def socket_on_def setTimeout_def
        typing_timers_def split: option.splits)
qed

lemma close_timers_ok:
  assumes "timers_ok s"
  shows "timers_ok (close P s)"
proof -
  let ?c = "case typingTimeoutId s of None \<Rightarrow> s
            | Some h \<Rightarrow> (clearTimeout h s)\<lparr>typingTimeoutId := None\<rparr>"
  have "timers (close P s) = timers ?c" "nextTimer (close P s) = nextTimer ?c"
    "typingTimeoutId (close P s) = typingTimeoutId ?c"
    by (simp_all add: close_def notifyConnectionStatus_def fanout_def Let_def
        split: option.splits)
  then have "timers_ok (close P s) = timers_ok ?c"
    by (simp add: timers_ok_def typing_timers_def split: option.splits)
  with clear_timers_ok [OF assms] show ?thesis by simp
qed

lemma step_timers_ok: "timers_ok s \<Longrightarrow> timers_ok (step P st s)"
proof (cases st)
  case (Subscribe c)
  assume "timers_ok s"
  moreover have "timer_frame s (onMessage c s)" by (simp add: timer_frame_def onMessage_def)
  ultimately show ?thesis by (simp add: Subscribe timers_ok_frame)
next
  case (Unsubscribe c)
  assume "timers_ok s"
  moreover have "timer_frame s (unsubscribe c s)" by (simp add: timer_frame_def unsubscribe_def)
  ultimately show ?thesis by (simp add: Unsubscribe timers_ok_frame)
next
  case (Send m)
  assume "timers_ok s"
  then show ?thesis by (simp add: Send timers_ok_frame [OF sendMessage_timer_frame])
next
  case (SendTyping r b)
  assume "timers_ok s"
  then show ?thesis by (simp add: SendTyping sendTypingIndicator_ok)
next
  case (AwaitOffer sid)
  assume "timers_ok s"
  then show ?thesis by (simp add: AwaitOffer getLastOffer_timers_ok)
next
  case Close
  assume "timers_ok s"
  then show ?thesis by (simp add: Close close_timers_ok)
next
  case (TokenSettled f)
  assume "timers_ok s"
  then show ?thesis
    by (simp add: TokenSettled timers_ok_frame [OF initializeConnection_resume_timer_frame])
next
  case (Inbound ev)
  assume "timers_ok s"
  then show ?thesis by (simp add: Inbound timers_ok_frame [OF receive_timer_frame])
next
  case (Elapse t)
  assume "timers_ok s"
  then show ?thesis by (simp add: Elapse advance_typing)
next
  case (SignIn u)
  assume "timers_ok s"
  moreover have "timer_frame s (s\<lparr>currentUser := u\<rparr>)" by (simp add: timer_frame_def)
  ultimately show ?thesis by (simp add: SignIn timers_ok_frame)
next
  case (Fault e)
  assume "timers_ok s"
  moreover have "timer_frame s (s\<lparr>emitFault := e\<rparr>)" by (simp add: timer_frame_def)
  ultimately show ?thesis by (simp add: Fault timers_ok_frame)
qed

lemma run_timers_ok: "timers_ok s \<Longrightarrow> timers_ok (run P sts s)"
  unfolding run_def by (induction sts arbitrary: s) (simp_all add: step_timers_ok)

lemma new_timers_ok: "timers_ok (new_ChatService P t u)"
proof -
  have "timers_ok (fresh t u)"
    by (simp add: fresh_def timers_ok_def typing_timers_def)
  then show ?thesis
    by (simp add: new_ChatService_def timers_ok_frame [OF initializeConnection_timer_frame])
qed

text \<open>
  C6. In a state whose timers are kept as \<open>timers_ok\<close> says (every state of a run of a
  new service is), \<^verbatim>\<open>sendTypingIndicator(r, true)\<close> leaves exactly one stop-typing
  timer pending, the new one, due 3000 ms after the call and held in
  \<^verbatim>\<open>typingTimeoutId\<close>; \<^verbatim>\<open>sendTypingIndicator(r, false)\<close> leaves none: whatever was
  pending is cancelled. When a stop-typing timer fires, its callback is
  \<^verbatim>\<open>sendTypingIndicator(r, false)\<close>. If a second \<^verbatim>\<open>sendTypingIndicator(r, true)\<close>
  follows the first at a time \<open>t1\<close> less than 3000 ms later and the clock then moves to
  \<open>t1 + 3000\<close> or beyond, the automatic stop-typing call has been made exactly once over
  all that time, and no stop-typing timer is pending. At most one stop-typing timer is
  pending after any run.
\<close>

theorem C6_typing_timer:
  assumes "timers_ok s"
  shows "typing_timers (snd (sendTypingIndicator P r True s)) =
           [\<lparr>handle = nextTimer s, due = now s + 3000, action = TypingAutoClear r\<rparr>] \<and>
         typingTimeoutId (snd (sendTypingIndicator P r True s)) = Some (nextTimer s) \<and>
         typing_timers (snd (sendTypingIndicator P r False s)) = [] \<and>
         fire P \<lparr>handle = h, due = d, action = TypingAutoClear r\<rparr> s =
           snd (sendTypingIndicator P r False
             (s\<lparr>timers := filter (\<lambda>y. handle y \<noteq> h) (timers s), now := max (now s) d,
                effects := effects s @ [TimerFired h (TypingAutoClear r)]\<rparr>)) \<and>
         (now s \<le> t1 \<and> t1 < now s + 3000 \<and> t1 + 3000 \<le> t2 \<longrightarrow>
            auto_cleared (effects
              (advance P t2 (snd (sendTypingIndicator P r True
                (advance P t1 (snd (sendTypingIndicator P r True s))))))) =
              auto_cleared (effects s) @ [r] \<and>
            typing_timers
              (advance P t2 (snd (sendTypingIndicator P r True
                (advance P t1 (snd (sendTypingIndicator P r True s)))))) = []) \<and>
         length (typing_timers (run P sts s)) \<le> 1 \<and>
         length (typing_timers (run P sts (new_ChatService P t0 u))) \<le> 1"
proof (intro conjI impI)
  let ?s1 = "snd (sendTypingIndicator P r True s)"
  let ?x1 = "\<lparr>handle = nextTimer s, due = now s + 3000, action = TypingAutoClear r\<rparr>"
  note a1 = sendTypingIndicator_ok [OF assms, of P r True] sendTypingIndicator_timers [OF assms, of P r True]
  show "typing_timers ?s1 = [?x1]" by (simp add: a1)
  show "typingTimeoutId ?s1 = Some (nextTimer s)" by (simp add: a1)
  show "typing_timers (snd (sendTypingIndicator P r False s)) = []"
    by (simp add: sendTypingIndicator_ok [OF assms])
  show "fire P \<lparr>handle = h, due = d, action = TypingAutoClear r\<rparr> s =
           snd (sendTypingIndicator P r False
             (s\<lparr>timers := filter (\<lambda>y. handle y \<noteq> h) (timers s), now := max (now s) d,
                effects := effects s @ [TimerFired h (TypingAutoClear r)]\<rparr>))"
    by (simp add: fire_def run_timer_def)
  show "length (typing_timers (run P sts s)) \<le> 1"
    by (rule typing_timers_at_most_one [OF run_timers_ok [OF assms]])
  show "length (typing_timers (run P sts (new_ChatService P t0 u))) \<le> 1"
    by (rule typing_timers_at_most_one [OF run_timers_ok [OF new_timers_ok]])
  assume t: "now s \<le> t1 \<and> t1 < now s + 3000 \<and> t1 + 3000 \<le> t2"
  let ?s2 = "advance P t1 ?s1"
  let ?s3 = "snd (sendTypingIndicator P r True ?s2)"
  let ?s4 = "advance P t2 ?s3"
  have ok1: "timers_ok ?s1" by (rule a1)
  note a2 = advance_typing [OF ok1, of P t1]
  have ok2: "timers_ok ?s2" using a2 by simp
  have n2: "now ?s2 = t1" using a2 t by (simp add: a1)
  have e2: "auto_cleared (effects ?s2) = auto_cleared (effects s)"
    using a2 t by (simp add: a1)
  note a3 = sendTypingIndicator_ok [OF ok2, of P r True]
    sendTypingIndicator_timers [OF ok2, of P r True]
  have ok3: "timers_ok ?s3" by (rule a3)
  have t3: "typing_timers ?s3 = [\<lparr>handle = nextTimer ?s2, due = t1 + 3000, action = TypingAutoClear r\<rparr>]"
    by (simp add: a3 n2)
  have e3: "auto_cleared (effects ?s3) = auto_cleared (effects s)"
    by (simp add: a3 e2)
  note a4 = advance_typing [OF ok3, of P t2]
  show "auto_cleared (effects ?s4) = auto_cleared (effects s) @ [r]"
    using a4 t by (simp add: t3 e3)
  show "typing_timers ?s4 = []"
    using a4 t by (simp add: t3)
qed

text \<open>
  On the example service: typing to \<^verbatim>\<open>B\<close> at 0 and again at 1000, then the clock at
  4000.
\<close>

theorem C6_witness:
  "timers_ok demo \<and> now demo \<le> 1000 \<and> (1000::nat) < now demo + 3000 \<and> (1000::nat) + 3000 \<le> 4000 \<and>
   typing_timers (snd (sendTypingIndicator P0 ''B'' True demo)) =
     [\<lparr>handle = 1, due = 3000, action = TypingAutoClear ''B''\<rparr>] \<and>
   auto_cleared (effects
     (advance P0 4000 (snd (sendTypingIndicator P0 ''B'' True
       (advance P0 1000 (snd (sendTypingIndicator P0 ''B'' True demo))))))) = [''B''] \<and>
   typing_timers
     (advance P0 4000 (snd (sendTypingIndicator P0 ''B'' True
       (advance P0 1000 (snd (sendTypingIndicator P0 ''B'' True demo)))))) = []"
proof -
  have a: "timers_ok demo" by (simp add: demo_def timers_ok_def typing_timers_def)
  have b: "now demo = 0" "nextTimer demo = 1" "effects demo = []" by (simp_all add: demo_def)
  from C6_typing_timer [OF a, of P0 "''B''" 0 0 1000 4000 "[]" 0 None] show ?thesis
    using a by (simp add: b)
qed

subsection \<open>Promises\<close>

lemma settled_kept_refl [simp]: "settled_kept s s"
  by (simp add: settled_kept_def)

lemma settled_kept_trans: "settled_kept s t \<Longrightarrow> settled_kept t u \<Longrightarrow> settled_kept s u"
  unfolding settled_kept_def by (metis le_trans less_le_trans)

lemma settled_kept_same: "promises s' = promises s \<Longrightarrow> settled_kept s s'"
  by (simp add: settled_kept_def)


lemma resolve_settled_kept: "settled_kept s (resolve p v s)"
  by (auto simp: settled_kept_def resolve_def nth_list_update)

lemma resolve_frame_kept: "promises t = promises s \<Longrightarrow> settled_kept s (resolve p v t)"
  by (auto simp: settled_kept_def resolve_def nth_list_update)

lemma initializeConnection_promises: "promises (snd (initializeConnection P s)) = promises s"
  by (simp add: initializeConnection_def notifyConnectionStatus_def fanout_def Let_def
      split: option.splits)

lemma initializeConnection_resume_promises:
  "promises (snd (initializeConnection_resume P f s)) = promises s"
  by (simp add: initializeConnection_resume_def initializeConnection_catch_def
      notifyConnectionStatus_def fanout_def Let_def split: option.splits)

lemma sendMessage_promises: "promises (snd (sendMessage P m s)) = promises s"
proof (cases "socket_connected s")
  case False
  then show ?thesis by (simp add: sendMessage_disconnected initializeConnection_promises)
next
  case True
  show ?thesis
  proof (cases "type m = Typing")
    case True
    with \<open>socket_connected s\<close> show ?thesis
      by (simp add: sendMessage_typing split: option.splits)
  next
    case False
    with True show ?thesis by (simp add: sendMessage_recorded)
  qed
qed

lemma sendTypingIndicator_promises: "promises (snd (sendTypingIndicator P r b s)) = promises s"
  by (simp add: sendTypingIndicator_eq Let_def setTimeout_def sendMessage_promises
      clearTimeout_def split: option.splits)

lemma handleOffer_settled_kept: "settled_kept s (handleOffer p sid m s)"
  by (auto simp: handleOffer_def socket_off_def intro!: resolve_frame_kept split: option.splits)

lemma run_listener_settled_kept: "settled_kept s (snd (run_listener P l ev s))"
  by (cases "(P, l, ev, s)" rule: run_listener.cases)
    (simp_all add: handleOffer_settled_kept settled_kept_same onConnect_fields
      onDisconnect_fields onTyping_def fanout_def onConnectError_def notifyConnectionStatus_def)

lemma run_listeners_settled_kept: "settled_kept s (snd (run_listeners P ls ev s))"
proof (induction ls arbitrary: s)
  case Nil
  show ?case by simp
next
  case (Cons l ls)
  obtain c s1 where r: "run_listener P l ev s = (c, s1)" by (cases "run_listener P l ev s")
  have f1: "settled_kept s s1" using run_listener_settled_kept [of s P l ev] by (simp add: r)
  show ?case
  proof (cases c)
    case Normal
    with r f1 Cons.IH [of s1] show ?thesis by (auto intro: settled_kept_trans)
  next
    case (Throw e)
    with r f1 show ?thesis by simp
  qed
qed

lemma receive_settled_kept: "settled_kept s (snd (receive P ev s))"
proof (cases "socket s")
  case None
  then show ?thesis by (simp add: receive_def)
next
  case (Some sk)
  have "settled_kept s (s\<lparr>socket := x\<rparr>)" for x by (simp add: settled_kept_def)
  then show ?thesis
    unfolding receive_def Some Let_def option.case
    by (rule settled_kept_trans [OF _ run_listeners_settled_kept])
qed

lemma getLastOffer_settled_kept: "settled_kept s (snd (getLastOffer sid s))"
  by (auto simp: getLastOffer_def Let_def settled_kept_def resolve_def socket_on_def
      setTimeout_def nth_append nth_list_update split: option.splits)

lemma fire_settled_kept: "settled_kept s (fire P x s)"
proof (cases "action x")
  case (TypingAutoClear r)
  show ?thesis
    by (rule settled_kept_same)
      (simp add: fire_def run_timer_def TypingAutoClear sendTypingIndicator_promises)
next
  case (OfferTimeout p sid)
  show ?thesis
    unfolding fire_def run_timer_def OfferTimeout timer_action.case
    by (rule resolve_frame_kept) (simp add: socket_off_def split: option.splits)
qed

lemma advance_settled_kept: "settled_kept s (advance P t s)"
proof (induction P t s rule: advance.induct)
  case (1 P t s)
  show ?case
  proof (cases "next_due t s")
    case None
    then show ?thesis
      by (subst advance.simps) (simp add: settled_kept_def)
  next
    case (Some x)
    have "advance P t s = advance P t (fire P x s)"
      by (subst advance.simps) (simp add: Some)
    with "1.IH" [OF Some] fire_settled_kept [of s P x] show ?thesis
      by (auto intro: settled_kept_trans)
  qed
qed

lemma step_settled_kept: "settled_kept s (step P st s)"
  by (cases st)
    (simp_all add: settled_kept_same onMessage_def unsubscribe_def sendMessage_promises
      sendTypingIndicator_promises getLastOffer_settled_kept close_fields
      initializeConnection_resume_promises receive_settled_kept advance_settled_kept)


subsection \<open>Transient listeners\<close>

lemma offer_listeners_socket:
  "socket s' = socket s \<Longrightarrow> offer_listeners p s' = offer_listeners p s"
  by (simp add: offer_listeners_def)

lemma offer_listeners_connected:
  "socket s = Some sk \<Longrightarrow> socket s' = Some (sk\<lparr>connected := b\<rparr>) \<Longrightarrow>
   offer_listeners p s' = offer_listeners p s"
  by (simp add: offer_listeners_def)

lemma offer_listeners_off:
  "offer_listeners p (socket_off ch l s) = remove1 (ch, l) (offer_listeners p s)"
  by (simp add: offer_listeners_def socket_off_def filter_remove1 split: option.splits)

lemma offer_listeners_resolve [simp]:
  "offer_listeners p (resolve q v s) = offer_listeners p s"
  by (simp add: offer_listeners_def resolve_def)

lemma remove1_other:
  "offer_promise l \<noteq> Some p \<Longrightarrow>
   remove1 (ch, l) (offer_listeners p s) = offer_listeners p s"
  by (rule remove1_idem) (auto simp: offer_listeners_def split: option.splits)

lemma handleOffer_miss:
  "\<not> carries_offer sid (EvData VoiceCall m) \<Longrightarrow> handleOffer p sid m s = s"
  by (auto simp: handleOffer_def split: option.splits)

lemma handleOffer_cases:
  "handleOffer q sid' m s = s \<or>
   (\<exists>v. handleOffer q sid' m s =
      resolve q v (socket_off (ChData VoiceCall) (HandleOffer q sid') s))"
  by (auto simp: handleOffer_def split: option.splits)

lemma socket_off_promises [simp]: "promises (socket_off ch l s) = promises s"
  by (simp add: socket_off_def split: option.splits)

lemma resolve_other: "q \<noteq> p \<Longrightarrow> promises (resolve q v s) ! p = promises s ! p"
  by (simp add: resolve_def)

lemma handleOffer_other:
  assumes "q \<noteq> p"
  shows "promises (handleOffer q sid' m s) ! p = promises s ! p"
    and "offer_listeners p (handleOffer q sid' m s) = offer_listeners p s"
proof -
  have o: "offer_promise (HandleOffer q sid') \<noteq> Some p" using assms by simp
  from handleOffer_cases [of q sid' m s]
  show "promises (handleOffer q sid' m s) ! p = promises s ! p"
    using assms by (auto simp: resolve_other)
  from handleOffer_cases [of q sid' m s]
  show "offer_listeners p (handleOffer q sid' m s) = offer_listeners p s"
    using remove1_other [OF o, of "ChData VoiceCall" s]
    by (auto simp: offer_listeners_off)
qed

lemma handleOffer_length [simp]:
  "length (promises (handleOffer q sid' m s)) = length (promises s)"
  by (simp add: handleOffer_def socket_off_def split: option.splits)


text \<open>A listener that does not settle the promise \<open>p\<close> on the event \<open>ev\<close>.\<close>

lemma run_listener_quiet:
  assumes "\<And>sid' m. l = HandleOffer p sid' \<Longrightarrow> ev = EvData VoiceCall m \<Longrightarrow>
             \<not> carries_offer sid' ev"
    and "\<And>sid'. l = HandleOffer p sid' \<Longrightarrow> channel_of ev = ChData VoiceCall"
  shows "promises (snd (run_listener P l ev s)) ! p = promises s ! p \<and>
         length (promises (snd (run_listener P l ev s))) = length (promises s) \<and>
         offer_listeners p (snd (run_listener P l ev s)) = offer_listeners p s"
proof (cases l)
  case OnConnect
  then show ?thesis by (simp add: onConnect_fields offer_listeners_def)
next
  case OnDisconnect
  then show ?thesis by (simp add: onDisconnect_fields offer_listeners_def)
next
  case OnConnectError
  then show ?thesis
    by (simp add: onConnectError_def notifyConnectionStatus_def fanout_def offer_listeners_def)
next
  case HandleMessage
  then show ?thesis by (cases ev) (simp_all add: offer_listeners_def)
next
  case OnTyping
  then show ?thesis by (cases ev) (simp_all add: onTyping_def fanout_def offer_listeners_def)
next
  case (HandleOffer q sid')
  show ?thesis
  proof (cases ev)
    case (EvData ch m)
    show ?thesis
    proof (cases "q = p")
      case True
      have l: "l = HandleOffer p sid'" using HandleOffer True by simp
      from assms(2) [OF l] have ch: "ch = VoiceCall" by (simp add: EvData)
      have e: "ev = EvData VoiceCall m" by (simp add: EvData ch)
      from assms(1) [OF l e] have "\<not> carries_offer sid' (EvData VoiceCall m)"
        unfolding e .
      then have "handleOffer p sid' m s = s" by (rule handleOffer_miss)
      then show ?thesis by (simp add: l EvData)
    next
      case False
      then show ?thesis by (simp add: HandleOffer EvData handleOffer_other)
    qed
  qed (simp_all add: HandleOffer)
qed

lemma run_listeners_quiet:
  assumes "\<And>sid' m. HandleOffer p sid' \<in> set ls \<Longrightarrow> ev = EvData VoiceCall m \<Longrightarrow>
             \<not> carries_offer sid' ev"
    and "\<And>sid'. HandleOffer p sid' \<in> set ls \<Longrightarrow> channel_of ev = ChData VoiceCall"
  shows "promises (snd (run_listeners P ls ev s)) ! p = promises s ! p \<and>
         length (promises (snd (run_listeners P ls ev s))) = length (promises s) \<and>
         offer_listeners p (snd (run_listeners P ls ev s)) = offer_listeners p s"
  using assms
proof (induction ls arbitrary: s)
  case Nil
  show ?case by simp
next
  case (Cons l ls)
  obtain c s1 where r: "run_listener P l ev s = (c, s1)" by (cases "run_listener P l ev s")
  have "promises (snd (run_listener P l ev s)) ! p = promises s ! p \<and>
        length (promises (snd (run_listener P l ev s))) = length (promises s) \<and>
        offer_listeners p (snd (run_listener P l ev s)) = offer_listeners p s"
  proof (rule run_listener_quiet)
    fix sid' m assume "l = HandleOffer p sid'" "ev = EvData VoiceCall m"
    then show "\<not> carries_offer sid' ev" using Cons.prems(1) [of sid' m] by simp
  next
    fix sid' assume "l = HandleOffer p sid'"
    then show "channel_of ev = ChData VoiceCall" using Cons.prems(2) [of sid'] by simp
  qed
  then have q: "promises s1 ! p = promises s ! p" "length (promises s1) = length (promises s)"
    "offer_listeners p s1 = offer_listeners p s"
    by (simp_all add: r)
  show ?case
  proof (cases c)
    case Normal
    have "promises (snd (run_listeners P ls ev s1)) ! p = promises s1 ! p \<and>
          length (promises (snd (run_listeners P ls ev s1))) = length (promises s1) \<and>
          offer_listeners p (snd (run_listeners P ls ev s1)) = offer_listeners p s1"
    proof (rule Cons.IH)
      fix sid' m assume "HandleOffer p sid' \<in> set ls" "ev = EvData VoiceCall m"
      then show "\<not> carries_offer sid' ev" using Cons.prems(1) [of sid' m] by simp
    next
      fix sid' assume "HandleOffer p sid' \<in> set ls"
      then show "channel_of ev = ChData VoiceCall" using Cons.prems(2) [of sid'] by simp
    qed
    then show ?thesis by (simp add: r Normal q)
  next
    case (Throw e)
    then show ?thesis by (simp add: r q)
  qed
qed

lemma run_listener_wired: "wired s \<Longrightarrow> wired (snd (run_listener P l ev s))"
proof (cases l)
  case OnConnect
  assume "wired s" then show ?thesis
    by (simp add: OnConnect wired_cong [of "snd (onConnect P s)" s] onConnect_fields)
next
  case OnDisconnect
  assume "wired s" then show ?thesis
    by (simp add: OnDisconnect wired_cong [of "onDisconnect P s" s] onDisconnect_fields)
next
  case OnConnectError
  have "wired (onConnectError P s) = wired s"
    by (rule wired_cong)
      (simp_all add: onConnectError_def notifyConnectionStatus_def fanout_def)
  moreover assume "wired s"
  ultimately show ?thesis by (simp add: OnConnectError)
next
  case HandleMessage
  assume "wired s" then show ?thesis
    by (cases ev) (simp_all add: HandleMessage wired_handleMessage)
next
  case OnTyping
  have "wired (onTyping m s) = wired s" for m
    by (rule wired_cong) (simp_all add: onTyping_def fanout_def)
  moreover assume "wired s"
  ultimately show ?thesis by (cases ev) (simp_all add: OnTyping)
next
  case (HandleOffer q sid')
  assume "wired s" then show ?thesis
    by (cases ev) (simp_all add: HandleOffer wired_handleOffer)
qed

lemma run_listeners_wired: "wired s \<Longrightarrow> wired (snd (run_listeners P ls ev s))"
proof (induction ls arbitrary: s)
  case Nil
  then show ?case by simp
next
  case (Cons l ls)
  obtain c s1 where r: "run_listener P l ev s = (c, s1)" by (cases "run_listener P l ev s")
  have w1: "wired s1" using run_listener_wired [OF Cons.prems, of P l ev] by (simp add: r)
  show ?case
  proof (cases c)
    case Normal
    with Cons.IH [OF w1] show ?thesis by (simp add: r)
  next
    case (Throw e)
    with w1 show ?thesis by (simp add: r)
  qed
qed

lemma receive_wired: "wired s \<Longrightarrow> wired (snd (receive P ev s))"
proof -
  assume w: "wired s"
  then obtain sk where sk: "socket s = Some sk" by (auto simp: wired_def split: option.splits)
  have "wired (s\<lparr>socket := Some (case ev of EvConnect \<Rightarrow> sk\<lparr>connected := True\<rparr>
                     | EvDisconnect \<Rightarrow> sk\<lparr>connected := False\<rparr> | _ \<Rightarrow> sk)\<rparr>)"
    using w sk by (cases ev) (simp_all add: wired_def)
  then show ?thesis
    unfolding receive_def sk option.case Let_def by (rule run_listeners_wired)
qed

lemma receive_quiet:
  assumes "set (offer_listeners p s) \<subseteq> {(ChData VoiceCall, HandleOffer p sid)}"
    and "\<not> carries_offer sid ev"
  shows "promises (snd (receive P ev s)) ! p = promises s ! p \<and>
         length (promises (snd (receive P ev s))) = length (promises s) \<and>
         offer_listeners p (snd (receive P ev s)) = offer_listeners p s"
proof (cases "socket s")
  case None
  then show ?thesis by (simp add: receive_def)
next
  case (Some sk)
  define sk' where "sk' = (case ev of EvConnect \<Rightarrow> sk\<lparr>connected := True\<rparr>
                     | EvDisconnect \<Rightarrow> sk\<lparr>connected := False\<rparr> | _ \<Rightarrow> sk)"
  have h: "handlers sk' = handlers sk" by (cases ev) (simp_all add: sk'_def)
  let ?s0 = "s\<lparr>socket := Some sk'\<rparr>"
  have o0: "offer_listeners p ?s0 = offer_listeners p s"
    by (simp add: offer_listeners_def Some h)
  have r: "receive P ev s = run_listeners P (listeners_on (channel_of ev) sk') ev ?s0"
    by (simp add: receive_def Some sk'_def Let_def)
  have mem: "channel_of ev = ChData VoiceCall \<and> sid' = sid"
    if "HandleOffer p sid' \<in> set (listeners_on (channel_of ev) sk')" for sid'
  proof -
    from that have "(channel_of ev, HandleOffer p sid') \<in> set (handlers sk)"
      by (auto simp: listeners_on_def h)
    then have "(channel_of ev, HandleOffer p sid') \<in> set (offer_listeners p s)"
      by (simp add: offer_listeners_def Some)
    with assms(1) show ?thesis by auto
  qed
  have "promises (snd (run_listeners P (listeners_on (channel_of ev) sk') ev ?s0)) ! p
          = promises ?s0 ! p \<and>
        length (promises (snd (run_listeners P (listeners_on (channel_of ev) sk') ev ?s0)))
          = length (promises ?s0) \<and>
        offer_listeners p (snd (run_listeners P (listeners_on (channel_of ev) sk') ev ?s0))
          = offer_listeners p ?s0"
  proof (rule run_listeners_quiet)
    fix sid' m
    assume "HandleOffer p sid' \<in> set (listeners_on (channel_of ev) sk')"
    with mem have "sid' = sid" by simp
    with assms(2) show "\<not> carries_offer sid' ev" by simp
  next
    fix sid'
    assume "HandleOffer p sid' \<in> set (listeners_on (channel_of ev) sk')"
    with mem show "channel_of ev = ChData VoiceCall" by simp
  qed
  then show ?thesis by (simp add: r o0)
qed




subsection \<open>Waiting for an offer: the listener and the timer\<close>

lemma getLastOffer_disconnected:
  "\<not> socket_connected s \<Longrightarrow>
   getLastOffer sid s = (length (promises s), s\<lparr>promises := promises s @ [Resolved None]\<rparr>)"
  by (simp add: getLastOffer_def Let_def resolve_def socket_connected_def)

lemma getLastOffer_connected:
  assumes "wired s" and "socket_connected s"
  shows "fst (getLastOffer sid s) = length (promises s)"
    and "wired (snd (getLastOffer sid s))"
    and "promises (snd (getLastOffer sid s)) = promises s @ [Pending]"
    and "offer_listeners (length (promises s)) (snd (getLastOffer sid s)) =
           [(ChData VoiceCall, HandleOffer (length (promises s)) sid)]"
    and "timers (snd (getLastOffer sid s)) =
           timers s @ [\<lparr>handle = nextTimer s, due = now s + 5000,
                         action = OfferTimeout (length (promises s)) sid\<rparr>]"
proof -
  let ?p = "length (promises s)"
  let ?e = "(ChData VoiceCall, HandleOffer ?p sid)"
  from assms(1) obtain sk os where sk: "socket s = Some sk"
    and h: "handlers sk = standard_handlers @ os"
    and os: "list_all (offer_entry ?p) os"
    by (rule wired_handlers)
  have g: "getLastOffer sid s =
     (?p, s\<lparr>promises := promises s @ [Pending],
            socket := Some (sk\<lparr>handlers := handlers sk @ [?e]\<rparr>),
            timers := timers s @ [\<lparr>handle = nextTimer s, due = now s + 5000,
                                   action = OfferTimeout ?p sid\<rparr>],
            nextTimer := Suc (nextTimer s)\<rparr>)"
    using assms(2)
    by (simp add: getLastOffer_def Let_def socket_connected_def socket_on_def setTimeout_def sk)
  show "fst (getLastOffer sid s) = ?p" by (simp add: g)
  show "promises (snd (getLastOffer sid s)) = promises s @ [Pending]" by (simp add: g)
  show "timers (snd (getLastOffer sid s)) =
           timers s @ [\<lparr>handle = nextTimer s, due = now s + 5000,
                         action = OfferTimeout ?p sid\<rparr>]"
    by (simp add: g)
  have os': "list_all (offer_entry (Suc ?p)) (os @ [?e])"
    using os by (auto simp: list_all_iff offer_entry_def split: listener.splits)
  show "wired (snd (getLastOffer sid s))"
  proof (rule wiredI)
    show "socket (snd (getLastOffer sid s)) = Some (sk\<lparr>handlers := handlers sk @ [?e]\<rparr>)"
      by (simp add: g)
    show "handlers (sk\<lparr>handlers := handlers sk @ [?e]\<rparr>) = standard_handlers @ (os @ [?e])"
      by (simp add: h)
    show "list_all (offer_entry (length (promises (snd (getLastOffer sid s))))) (os @ [?e])"
      using os' by (simp add: g)
  qed
  have "\<forall>cl \<in> set os. offer_promise (snd cl) \<noteq> Some ?p"
  proof
    fix cl assume "cl \<in> set os"
    with os have "offer_entry ?p cl" by (simp add: list_all_iff)
    then show "offer_promise (snd cl) \<noteq> Some ?p"
      by (cases "snd cl") (simp_all add: offer_entry_def)
  qed
  then have "filter (\<lambda>cl. offer_promise (snd cl) = Some ?p) os = []"
    by (simp add: filter_empty_conv)
  then show "offer_listeners ?p (snd (getLastOffer sid s)) = [?e]"
    by (simp add: g offer_listeners_def h standard_handlers_def)
qed

lemma run_Inbound_Cons:
  "run P (map Inbound (ev # evs)) s = run P (map Inbound evs) (snd (receive P ev s))"
  by (simp add: run_def)

lemma pending_trace:
  assumes "wired s" and "p < length (promises s)" and "promises s ! p = Pending"
    and "offer_listeners p s = [(ChData VoiceCall, HandleOffer p sid)]"
    and "\<forall>ev \<in> set evs. \<not> carries_offer sid ev"
  shows "wired (run P (map Inbound evs) s) \<and>
         p < length (promises (run P (map Inbound evs) s)) \<and>
         promises (run P (map Inbound evs) s) ! p = Pending \<and>
         offer_listeners p (run P (map Inbound evs) s) = [(ChData VoiceCall, HandleOffer p sid)] \<and>
         timer_frame s (run P (map Inbound evs) s)"
  using assms
proof (induction evs arbitrary: s)
  case Nil
  then show ?case by (simp add: run_def)
next
  case (Cons ev evs)
  let ?s1 = "snd (receive P ev s)"
  from Cons.prems(5) have n: "\<not> carries_offer sid ev"
    and rest: "\<forall>ev \<in> set evs. \<not> carries_offer sid ev" by simp_all
  have "set (offer_listeners p s) \<subseteq> {(ChData VoiceCall, HandleOffer p sid)}"
    by (simp add: Cons.prems(4))
  from receive_quiet [OF this n, of P]
  have q: "promises ?s1 ! p = promises s ! p" "length (promises ?s1) = length (promises s)"
    "offer_listeners p ?s1 = offer_listeners p s"
    by simp_all
  have w: "wired ?s1" using Cons.prems(1) by (rule receive_wired)
  have "wired (run P (map Inbound evs) ?s1) \<and>
         p < length (promises (run P (map Inbound evs) ?s1)) \<and>
         promises (run P (map Inbound evs) ?s1) ! p = Pending \<and>
         offer_listeners p (run P (map Inbound evs) ?s1) = [(ChData VoiceCall, HandleOffer p sid)] \<and>
         timer_frame ?s1 (run P (map Inbound evs) ?s1)"
    by (rule Cons.IH [OF w]) (simp_all add: q Cons.prems rest)
  then show ?case
    unfolding run_Inbound_Cons
    using timer_frame_trans [OF receive_timer_frame [of s P ev]] by blast
qed

lemma sendMessage_socket:
  "socket (snd (sendMessage P m s)) = socket s \<or> socket (snd (sendMessage P m s)) = None"
proof (cases "socket_connected s")
  case False
  then show ?thesis
    by (simp add: sendMessage_disconnected initializeConnection_def notifyConnectionStatus_def
        fanout_def Let_def split: option.splits)
next
  case True
  show ?thesis
  proof (cases "type m = Typing")
    case True
    with \<open>socket_connected s\<close> show ?thesis
      by (simp add: sendMessage_typing split: option.splits)
  next
    case False
    with True show ?thesis by (simp add: sendMessage_recorded)
  qed
qed

lemma sendTypingIndicator_socket:
  "socket (snd (sendTypingIndicator P r False s)) = socket s \<or>
   socket (snd (sendTypingIndicator P r False s)) = None"
proof -
  define s1 where "s1 = (case typingTimeoutId s of
                  None \<Rightarrow> s
                | Some h \<Rightarrow> (clearTimeout h s)\<lparr>typingTimeoutId := None\<rparr>)"
  have s1: "socket s1 = socket s"
    by (simp add: s1_def clearTimeout_def split: option.splits)
  show ?thesis
    unfolding sendTypingIndicator_eq Let_def s1_def [symmetric]
    using sendMessage_socket [of P _ s1] by (simp add: s1)
qed




lemma fire_timers:
  assumes "timers_ok s" and "y \<in> set (timers s)"
  shows "timers (fire P y s) = filter (\<lambda>z. handle z \<noteq> handle y) (timers s)"
proof (cases "action y")
  case (TypingAutoClear r)
  let ?s0 = "s\<lparr>timers := filter (\<lambda>z. handle z \<noteq> handle y) (timers s),
                now := max (now s) (due y),
                effects := effects s @ [TimerFired (handle y) (action y)]\<rparr>"
  have ok0: "timers_ok ?s0" using assms(1) by (rule timers_ok_filter)
  have "typing_timers ?s0 = []"
    using filter_handle_typing [OF assms] TypingAutoClear by simp
  then have "\<forall>z \<in> set (timers ?s0). \<not> is_typing (action z)"
    unfolding typing_timers_def filter_empty_conv .
  then have "filter (\<lambda>z. \<not> is_typing (action z)) (timers ?s0) = timers ?s0"
    unfolding filter_id_conv .
  moreover have f: "fire P y s = snd (sendTypingIndicator P r False ?s0)"
    by (simp add: fire_def run_timer_def TypingAutoClear)
  ultimately show ?thesis
    using sendTypingIndicator_timers(1) [OF ok0, of P r False] by simp
next
  case (OfferTimeout q sid')
  then show ?thesis
    by (simp add: fire_def run_timer_def resolve_def socket_off_def split: option.splits)
qed




subsection \<open>What holds in every state of a run\<close>

lemma wired_more_promises:
  assumes "wired s" and "socket s' = socket s" and "length (promises s) \<le> length (promises s')"
  shows "wired s'"
proof -
  from assms(1) obtain sk os where sk: "socket s = Some sk"
    and h: "handlers sk = standard_handlers @ os"
    and os: "list_all (offer_entry (length (promises s))) os"
    by (rule wired_handlers)
  have "offer_entry (length (promises s')) cl" if "offer_entry (length (promises s)) cl" for cl
    using that assms(3) by (auto simp: offer_entry_def split: listener.splits)
  with os have "list_all (offer_entry (length (promises s'))) os"
    by (auto simp: list_all_iff)
  with sk h assms(2) show ?thesis by (auto intro: wiredI)
qed

lemma wired_socket_off:
  assumes "wired s"
  shows "wired (socket_off (ChData VoiceCall) (HandleOffer p sid) s)"
proof -
  from assms obtain sk os where sk: "socket s = Some sk"
    and h: "handlers sk = standard_handlers @ os"
    and os: "list_all (offer_entry (length (promises s))) os"
    by (rule wired_handlers)
  let ?x = "(ChData VoiceCall, HandleOffer p sid)"
  have notin: "?x \<notin> set standard_handlers" by (simp add: standard_handlers_def)
  have rm: "remove1 ?x (handlers sk) = standard_handlers @ remove1 ?x os"
    using notin by (simp add: h remove1_append)
  have os': "list_all (offer_entry (length (promises s))) (remove1 ?x os)"
    using os by (auto simp: list_all_iff dest: notin_set_remove1)
  show ?thesis
  proof (rule wiredI)
    show "socket (socket_off (ChData VoiceCall) (HandleOffer p sid) s)
          = Some (sk\<lparr>handlers := remove1 ?x (handlers sk)\<rparr>)"
      by (simp add: socket_off_def sk)
    show "handlers (sk\<lparr>handlers := remove1 ?x (handlers sk)\<rparr>) = standard_handlers @ remove1 ?x os"
      by (simp add: rm)
    show "list_all (offer_entry (length (promises
            (socket_off (ChData VoiceCall) (HandleOffer p sid) s)))) (remove1 ?x os)"
      using os' by simp
  qed
qed

text \<open>The service has no socket, or one that is set up as \<open>wired\<close> says.\<close>

lemma fire_socket_ok:
  assumes "socket s = None \<or> wired s"
  shows "socket (fire P y s) = None \<or> wired (fire P y s)"
proof (cases "action y")
  case (TypingAutoClear r)
  let ?s0 = "s\<lparr>timers := filter (\<lambda>z. handle z \<noteq> handle y) (timers s),
                now := max (now s) (due y),
                effects := effects s @ [TimerFired (handle y) (action y)]\<rparr>"
  have f: "fire P y s = snd (sendTypingIndicator P r False ?s0)"
    by (simp add: fire_def run_timer_def TypingAutoClear)
  from sendTypingIndicator_socket [of P r ?s0]
  have "socket (fire P y s) = socket s \<or> socket (fire P y s) = None" by (simp add: f)
  moreover have "promises (fire P y s) = promises s"
    by (simp add: f sendTypingIndicator_promises)
  ultimately show ?thesis using assms by (auto simp: wired_cong [of "fire P y s" s])
next
  case (OfferTimeout q sid')
  let ?s0 = "s\<lparr>timers := filter (\<lambda>z. handle z \<noteq> handle y) (timers s),
                now := max (now s) (due y),
                effects := effects s @ [TimerFired (handle y) (action y)]\<rparr>"
  have f: "fire P y s = resolve q None (socket_off (ChData VoiceCall) (HandleOffer q sid') ?s0)"
    by (simp add: fire_def run_timer_def OfferTimeout)
  show ?thesis
  proof (cases "socket s")
    case None
    then show ?thesis by (simp add: f resolve_def socket_off_def)
  next
    case (Some sk)
    with assms have "wired s" by simp
    then have "wired ?s0" by (simp add: wired_cong [of ?s0 s])
    then have "wired (socket_off (ChData VoiceCall) (HandleOffer q sid') ?s0)"
      by (rule wired_socket_off)
    then have "wired (fire P y s)"
      unfolding f by (rule wired_more_promises) (simp_all add: resolve_def)
    then show ?thesis ..
  qed
qed

lemma advance_socket_ok:
  "socket s = None \<or> wired s \<Longrightarrow> socket (advance P t s) = None \<or> wired (advance P t s)"
proof (induction P t s rule: advance.induct)
  case (1 P t s)
  show ?case
  proof (cases "next_due t s")
    case None
    have a: "advance P t s = s\<lparr>now := max (now s) t\<rparr>"
      by (subst advance.simps) (simp add: None)
    show ?thesis
      unfolding a using "1.prems" by (auto simp: wired_cong [of "s\<lparr>now := max (now s) t\<rparr>" s])
  next
    case (Some y)
    have a: "advance P t s = advance P t (fire P y s)"
      by (subst advance.simps) (simp add: Some)
    from "1.IH" [OF Some fire_socket_ok [OF "1.prems"]] show ?thesis by (simp add: a)
  qed
qed

lemma step_socket_ok:
  assumes "socket s = None \<or> wired s"
  shows "socket (step P st s) = None \<or> wired (step P st s)"
proof (cases st)
  case (Subscribe c)
  have "wired (onMessage c s) = wired s" by (rule wired_cong) (simp_all add: onMessage_def)
  with assms show ?thesis by (auto simp: Subscribe onMessage_def)
next
  case (Unsubscribe c)
  have "wired (unsubscribe c s) = wired s" by (rule wired_cong) (simp_all add: unsubscribe_def)
  with assms show ?thesis by (auto simp: Unsubscribe unsubscribe_def)
next
  case (Send m)
  from sendMessage_socket [of P m s] assms show ?thesis
    by (auto simp: Send wired_cong [of "snd (sendMessage P m s)" s] sendMessage_promises)
next
  case (SendTyping r b)
  define s1 where "s1 = (case typingTimeoutId s of
                  None \<Rightarrow> s
                | Some h \<Rightarrow> (clearTimeout h s)\<lparr>typingTimeoutId := None\<rparr>)"
  have s1: "socket s1 = socket s"
    by (simp add: s1_def clearTimeout_def split: option.splits)
  have "socket (snd (sendTypingIndicator P r b s)) = socket s \<or>
        socket (snd (sendTypingIndicator P r b s)) = None"
    unfolding sendTypingIndicator_eq Let_def s1_def [symmetric]
    using sendMessage_socket [of P _ s1] by (simp add: s1 setTimeout_def)
  with assms show ?thesis
    by (auto simp: SendTyping wired_cong [of "snd (sendTypingIndicator P r b s)" s]
        sendTypingIndicator_promises)
next
  case (AwaitOffer sid)
  show ?thesis
  proof (cases "socket_connected s")
    case True
    then have "socket s \<noteq> None" by (auto simp: socket_connected_def split: option.splits)
    with assms have "wired s" by simp
    from getLastOffer_connected(2) [OF this True] show ?thesis by (simp add: AwaitOffer)
  next
    case False
    show ?thesis
    proof (cases "socket s")
      case None
      with False show ?thesis by (simp add: AwaitOffer getLastOffer_disconnected)
    next
      case (Some sk)
      with assms have "wired s" by simp
      then have "wired (s\<lparr>promises := promises s @ [Resolved None]\<rparr>)"
        by (rule wired_more_promises) simp_all
      with False show ?thesis by (simp add: AwaitOffer getLastOffer_disconnected)
    qed
  qed
next
  case Close
  show ?thesis by (simp add: Close close_fields)
next
  case (TokenSettled f)
  have "wired (t\<lparr>socket := Some \<lparr>connected = False, handlers = standard_handlers\<rparr>\<rparr>)" for t
    by (simp add: wired_def standard_handlers_def)
  moreover have "wired (snd (initializeConnection_catch P e t)) = wired t" for e t
    by (rule wired_cong)
      (simp_all add: initializeConnection_catch_def notifyConnectionStatus_def fanout_def Let_def)
  moreover have "socket (snd (initializeConnection_catch P e t)) = socket t" for e t
    by (simp add: initializeConnection_catch_def notifyConnectionStatus_def fanout_def Let_def)
  moreover have "wired (s\<lparr>awaitingToken := n\<rparr>) = wired s" for n
    by (rule wired_cong) simp_all
  ultimately show ?thesis
    using assms
    by (auto simp: TokenSettled initializeConnection_resume_def Let_def split: option.splits)
next
  case (Inbound ev)
  show ?thesis
  proof (cases "socket s")
    case None
    then show ?thesis by (simp add: Inbound receive_def)
  next
    case (Some sk)
    with assms have "wired s" by simp
    then show ?thesis by (simp add: Inbound receive_wired)
  qed
next
  case (Elapse t)
  from advance_socket_ok [OF assms] show ?thesis by (simp add: Elapse)
next
  case (SignIn u)
  have "wired (s\<lparr>currentUser := u\<rparr>) = wired s" by (rule wired_cong) simp_all
  with assms show ?thesis by (auto simp: SignIn)
next
  case (Fault e)
  have "wired (s\<lparr>emitFault := e\<rparr>) = wired s" by (rule wired_cong) simp_all
  with assms show ?thesis by (auto simp: Fault)
qed

lemma fire_callbacks: "messageCallbacks (fire P y s) = messageCallbacks s"
proof (cases "action y")
  case (TypingAutoClear r)
  have "messageCallbacks (snd (sendMessage P m t)) = messageCallbacks t" for m t
  proof (cases "socket_connected t")
    case False
    then show ?thesis
      by (simp add: sendMessage_disconnected initializeConnection_def notifyConnectionStatus_def
          fanout_def Let_def split: option.splits)
  next
    case True
    then show ?thesis
      by (cases "type m = Typing")
        (simp_all add: sendMessage_typing sendMessage_recorded split: option.splits)
  qed
  then show ?thesis
    by (simp add: fire_def run_timer_def TypingAutoClear sendTypingIndicator_eq Let_def
        setTimeout_def clearTimeout_def split: option.splits)
next
  case (OfferTimeout q sid')
  then show ?thesis
    by (simp add: fire_def run_timer_def resolve_def socket_off_def split: option.splits)
qed

lemma advance_callbacks: "messageCallbacks (advance P t s) = messageCallbacks s"
proof (induction P t s rule: advance.induct)
  case (1 P t s)
  show ?case
  proof (cases "next_due t s")
    case None
    then show ?thesis by (subst advance.simps) simp
  next
    case (Some y)
    have "advance P t s = advance P t (fire P y s)"
      by (subst advance.simps) (simp add: Some)
    with "1.IH" [OF Some] show ?thesis by (simp add: fire_callbacks)
  qed
qed

lemma run_listeners_callbacks:
  "messageCallbacks (snd (run_listeners P ls ev s)) = messageCallbacks s"
proof (induction ls arbitrary: s)
  case Nil
  show ?case by simp
next
  case (Cons l ls)
  have one: "messageCallbacks (snd (run_listener P l ev s)) = messageCallbacks s"
    by (cases "(P, l, ev, s)" rule: run_listener.cases)
      (simp_all add: onConnect_fields onDisconnect_fields onConnectError_def onTyping_def
        notifyConnectionStatus_def fanout_def handleOffer_def resolve_def socket_off_def
        split: option.splits)
  obtain c s1 where r: "run_listener P l ev s = (c, s1)" by (cases "run_listener P l ev s")
  with one have "messageCallbacks s1 = messageCallbacks s" by simp
  with Cons.IH [of s1] show ?case by (cases c) (simp_all add: r)
qed

lemma step_callbacks_distinct:
  assumes "distinct (messageCallbacks s)"
  shows "distinct (messageCallbacks (step P st s))"
proof (cases st)
  case (Send m)
  have "messageCallbacks (snd (sendMessage P m s)) = messageCallbacks s"
  proof (cases "socket_connected s")
    case False
    then show ?thesis
      by (simp add: sendMessage_disconnected initializeConnection_def notifyConnectionStatus_def
          fanout_def Let_def split: option.splits)
  next
    case True
    then show ?thesis
      by (cases "type m = Typing")
        (simp_all add: sendMessage_typing sendMessage_recorded split: option.splits)
  qed
  with assms show ?thesis by (simp add: Send)
next
  case (SendTyping r b)
  have "messageCallbacks (snd (sendMessage P m t)) = messageCallbacks t" for m t
  proof (cases "socket_connected t")
    case False
    then show ?thesis
      by (simp add: sendMessage_disconnected initializeConnection_def notifyConnectionStatus_def
          fanout_def Let_def split: option.splits)
  next
    case True
    then show ?thesis
      by (cases "type m = Typing")
        (simp_all add: sendMessage_typing sendMessage_recorded split: option.splits)
  qed
  with assms show ?thesis
    by (simp add: SendTyping sendTypingIndicator_eq Let_def setTimeout_def clearTimeout_def
        split: option.splits)
next
  case (Inbound ev)
  have "messageCallbacks (snd (receive P ev s)) = messageCallbacks s"
    by (cases "socket s") (simp_all add: receive_def Let_def run_listeners_callbacks)
  with assms show ?thesis by (simp add: Inbound)
next
  case (Elapse t)
  with assms show ?thesis by (simp add: advance_callbacks)
qed (use assms in \<open>simp_all add: onMessage_def unsubscribe_def distinct_removeAll
      getLastOffer_def Let_def resolve_def socket_on_def setTimeout_def close_fields
      initializeConnection_resume_def initializeConnection_catch_def notifyConnectionStatus_def
      fanout_def split: option.splits prod.splits\<close>)

text \<open>
  In every state of a run of a new service the callbacks are a set, the timers are kept
  as \<open>timers_ok\<close> says, and a socket, if there is one, is set up as \<open>wired\<close> says.
\<close>

lemma run_invariants:
  assumes "distinct (messageCallbacks s)" and "timers_ok s" and "socket s = None \<or> wired s"
  shows "distinct (messageCallbacks (run P sts s)) \<and> timers_ok (run P sts s) \<and>
         (socket (run P sts s) = None \<or> wired (run P sts s))"
  using assms unfolding run_def
proof (induction sts arbitrary: s)
  case Nil
  then show ?case by simp
next
  case (Cons st sts)
  from Cons.IH [OF step_callbacks_distinct [OF Cons.prems(1), of P st]
      step_timers_ok [OF Cons.prems(2), of P st] step_socket_ok [OF Cons.prems(3), of P st]]
  show ?case by simp
qed

lemma reachable_invariants:
  "distinct (messageCallbacks (run P sts (new_ChatService P t u))) \<and>
   timers_ok (run P sts (new_ChatService P t u)) \<and>
   (socket (run P sts (new_ChatService P t u)) = None \<or>
    wired (run P sts (new_ChatService P t u)))"
proof (rule run_invariants)
  show "distinct (messageCallbacks (new_ChatService P t u))"
    by (simp add: new_ChatService_def fresh_def initializeConnection_def
        notifyConnectionStatus_def fanout_def Let_def socket_connected_def)
  show "timers_ok (new_ChatService P t u)" by (rule new_timers_ok)
  show "socket (new_ChatService P t u) = None \<or> wired (new_ChatService P t u)"
    by (simp add: new_ChatService_def fresh_def initializeConnection_def
        notifyConnectionStatus_def fanout_def Let_def socket_connected_def)
qed

subsection \<open>A call of \<^verbatim>\<open>getLastOffer\<close> that is still waiting\<close>

lemma run_Cons: "run P (st # sts) s = run P sts (step P st s)"
  by (simp add: run_def)

















lemma close_timers: "timers_ok s \<Longrightarrow> timers (close P s) = filter (\<lambda>x. \<not> is_typing (action x)) (timers s)"
proof -
  assume ok: "timers_ok s"
  let ?c = "case typingTimeoutId s of None \<Rightarrow> s
            | Some h \<Rightarrow> (clearTimeout h s)\<lparr>typingTimeoutId := None\<rparr>"
  have "timers (close P s) = timers ?c"
    by (simp add: close_def notifyConnectionStatus_def fanout_def Let_def split: option.splits)
  with cleared_timers [OF ok] show ?thesis by simp
qed






subsection \<open>Timeouts belong to promises, in every state of a run\<close>

lemma timeouts_ok_mono:
  assumes "timeouts_ok s" and "length (promises s) \<le> length (promises s')"
    and "\<forall>y \<in> set (timers s'). y \<in> set (timers s) \<or> is_typing (action y)"
  shows "timeouts_ok s'"
  unfolding timeouts_ok_def list_all_iff
proof
  fix y assume y: "y \<in> set (timers s')"
  show "case action y of OfferTimeout q sid \<Rightarrow> q < length (promises s')
        | TypingAutoClear r \<Rightarrow> True"
  proof (cases "action y")
    case (TypingAutoClear r)
    then show ?thesis by simp
  next
    case (OfferTimeout q sid)
    with assms(3) y have "y \<in> set (timers s)" by auto
    with assms(1) OfferTimeout have "q < length (promises s)"
      by (auto simp: timeouts_ok_def list_all_iff)
    with assms(2) OfferTimeout show ?thesis by simp
  qed
qed

lemma advance_timers_subset:
  "timers_ok s \<Longrightarrow> set (timers (advance P t s)) \<subseteq> set (timers s)"
proof (induction P t s rule: advance.induct)
  case (1 P t s)
  show ?case
  proof (cases "next_due t s")
    case None
    then show ?thesis by (subst advance.simps) simp
  next
    case (Some y)
    note y = next_due_Some [OF Some]
    have a: "advance P t s = advance P t (fire P y s)"
      by (subst advance.simps) (simp add: Some)
    have "set (timers (fire P y s)) \<subseteq> set (timers s)"
      by (simp add: fire_timers [OF "1.prems" y(1)])
    with "1.IH" [OF Some fire_facts(1) [OF "1.prems" y(1)]] show ?thesis
      by (auto simp: a)
  qed
qed

lemma step_timeouts_ok:
  assumes "timers_ok s" and "timeouts_ok s"
  shows "timeouts_ok (step P st s)"
proof (cases st)
  case (AwaitOffer sid)
  from assms(2) show ?thesis
    by (auto simp: AwaitOffer timeouts_ok_def list_all_iff getLastOffer_def Let_def resolve_def
        socket_on_def setTimeout_def split: option.splits timer_action.splits)
next
  case other: (Subscribe c)
  have len: "length (promises s) \<le> length (promises (step P st s))"
    using step_settled_kept [of s P st] by (simp add: settled_kept_def)
  show ?thesis
    by (rule timeouts_ok_mono [OF assms(2) len]) (simp add: other onMessage_def)
next
  case (Unsubscribe c)
  have len: "length (promises s) \<le> length (promises (step P st s))"
    using step_settled_kept [of s P st] by (simp add: settled_kept_def)
  show ?thesis
    by (rule timeouts_ok_mono [OF assms(2) len]) (simp add: Unsubscribe unsubscribe_def)
next
  case (Send m)
  have len: "length (promises s) \<le> length (promises (step P st s))"
    using step_settled_kept [of s P st] by (simp add: settled_kept_def)
  have "timers (snd (sendMessage P m s)) = timers s"
    using sendMessage_timer_frame [of s P m] by (simp add: timer_frame_def)
  then show ?thesis
    by (intro timeouts_ok_mono [OF assms(2) len]) (simp add: Send)
next
  case (SendTyping r b)
  have len: "length (promises s) \<le> length (promises (step P st s))"
    using step_settled_kept [of s P st] by (simp add: settled_kept_def)
  show ?thesis
    by (rule timeouts_ok_mono [OF assms(2) len])
      (auto simp: SendTyping sendTypingIndicator_timers(1) [OF assms(1)])
next
  case Close
  have len: "length (promises s) \<le> length (promises (step P st s))"
    using step_settled_kept [of s P st] by (simp add: settled_kept_def)
  show ?thesis
    by (rule timeouts_ok_mono [OF assms(2) len]) (auto simp: Close close_timers [OF assms(1)])
next
  case (TokenSettled f)
  have len: "length (promises s) \<le> length (promises (step P st s))"
    using step_settled_kept [of s P st] by (simp add: settled_kept_def)
  have "timers (snd (initializeConnection_resume P f s)) = timers s"
    using initializeConnection_resume_timer_frame [of s P f] by (simp add: timer_frame_def)
  then show ?thesis
    by (intro timeouts_ok_mono [OF assms(2) len]) (simp add: TokenSettled)
next
  case (Inbound ev)
  have len: "length (promises s) \<le> length (promises (step P st s))"
    using step_settled_kept [of s P st] by (simp add: settled_kept_def)
  have "timers (snd (receive P ev s)) = timers s"
    using receive_timer_frame [of s P ev] by (simp add: timer_frame_def)
  then show ?thesis
    by (intro timeouts_ok_mono [OF assms(2) len]) (simp add: Inbound)
next
  case (Elapse t)
  have len: "length (promises s) \<le> length (promises (step P st s))"
    using step_settled_kept [of s P st] by (simp add: settled_kept_def)
  show ?thesis
    by (rule timeouts_ok_mono [OF assms(2) len])
      (use advance_timers_subset [OF assms(1), of P t] in \<open>auto simp: Elapse\<close>)
next
  case (SignIn u)
  have len: "length (promises s) \<le> length (promises (step P st s))"
    using step_settled_kept [of s P st] by (simp add: settled_kept_def)
  show ?thesis
    by (rule timeouts_ok_mono [OF assms(2) len]) (simp add: SignIn)
next
  case (Fault e)
  have len: "length (promises s) \<le> length (promises (step P st s))"
    using step_settled_kept [of s P st] by (simp add: settled_kept_def)
  show ?thesis
    by (rule timeouts_ok_mono [OF assms(2) len]) (simp add: Fault)
qed

lemma run_timeouts_ok:
  "timers_ok s \<Longrightarrow> timeouts_ok s \<Longrightarrow> timeouts_ok (run P sts s)"
proof (induction sts arbitrary: s)
  case Nil
  then show ?case by (simp add: run_def)
next
  case (Cons st sts)
  from Cons.IH [OF step_timers_ok [OF Cons.prems(1)] step_timeouts_ok [OF Cons.prems]]
  show ?case by (simp add: run_Cons)
qed

text \<open>
  In every state of a run of a new service, the pending timeouts of \<^verbatim>\<open>getLastOffer\<close>
  belong to promises that were handed out.
\<close>

lemma reachable_timeouts_ok: "timeouts_ok (run P sts (new_ChatService P t u))"
proof (rule run_timeouts_ok [OF new_timers_ok])
  have "timers (new_ChatService P t u) = timers (fresh t u)"
    using initializeConnection_timer_frame [of "fresh t u" P]
    by (simp add: new_ChatService_def timer_frame_def)
  then show "timeouts_ok (new_ChatService P t u)"
    by (simp add: timeouts_ok_def fresh_def)
qed

subsection \<open>C5: the promise of \<^verbatim>\<open>getLastOffer\<close>\<close>






end
